theory Spec2Isabelle
  imports Main "HOL-Library.Sublist"
begin

section \<open>Configuration constants of \<^verbatim>\<open>scripts/download-bing-photos.cjs\<close>\<close>

definition TARGET_COUNT :: nat where
  "TARGET_COUNT = 50"

definition MAX_BYTES :: nat where
  "MAX_BYTES = 500 * 1024"

definition MAX_DOWNLOAD_BYTES :: nat where
  "MAX_DOWNLOAD_BYTES = 10 * 1024 * 1024"

definition MARKETS :: "string list" where
  "MARKETS =
    [''zh-CN'', ''en-US'', ''en-GB'', ''ja-JP'', ''de-DE'', ''fr-FR'', ''it-IT'', ''es-ES'',
     ''pt-BR'', ''pt-PT'', ''ko-KR'', ''zh-TW'', ''ru-RU'', ''nl-NL'', ''sv-SE'', ''da-DK'',
     ''fi-FI'', ''no-NO'', ''pl-PL'', ''tr-TR'', ''th-TH'', ''id-ID'', ''vi-VN'', ''hi-IN'',
     ''ar-SA'', ''he-IL'', ''cs-CZ'', ''hu-HU'', ''el-GR'', ''ro-RO'', ''uk-UA'', ''bg-BG'']"

definition BATCH_SIZE :: nat where
  "BATCH_SIZE = 1"

definition SIZE_CANDIDATES :: "string list" where
  "SIZE_CANDIDATES = [''800x600'', ''640x480'', ''400x240'']"

definition MAX_FETCH_DAYS :: nat where
  "MAX_FETCH_DAYS = 8"


section \<open>\<^verbatim>\<open>downloadWithLimit\<close>: the size-capped streaming download\<close>

text \<open>
  The network is the environment of the script. One \<^verbatim>\<open>https.get\<close> either fails before a
  response arrives (the request's \<^verbatim>\<open>'error'\<close> event) or yields a response: a status code, the
  \<^verbatim>\<open>content-length\<close> header and the body as the lengths of the chunks that the \<^verbatim>\<open>'data'\<close>
  events carry, in arrival order. Only the length of a chunk matters to the code.

  The header is read as \<^verbatim>\<open>lengthHeader && Number(lengthHeader) > maxBytes\<close>: a missing or
  empty header is falsy, a header that is not a number converts to NaN (every comparison
  with NaN is false), and otherwise the header is a number; integral values are modelled.
\<close>

datatype header_value = Missing | NaN | Num int

record response =
  statusCode :: nat
  content_length :: header_value
  body :: "nat list"

datatype http_get = NetworkError | Response response

text \<open>The three values the promise is resolved with, and the states a promise can be in.\<close>

datatype download_result = Ok nat | TooLarge | BadStatus nat

datatype 'a promise = Resolved 'a | Rejected | Pending

text \<open>
  The closure of the two stream handlers: \<^verbatim>\<open>chunks\<close>, \<^verbatim>\<open>total\<close>, \<^verbatim>\<open>aborted\<close>, and whether
  \<^verbatim>\<open>res.destroy()\<close> has been called on the response.
\<close>

record download_state =
  chunks :: "nat list"
  total :: nat
  aborted :: bool
  destroyed :: bool

definition initial_download_state :: download_state where
  "initial_download_state = \<lparr>chunks = [], total = 0, aborted = False, destroyed = False\<rparr>"

text \<open>The \<^verbatim>\<open>'data'\<close> handler (lines 62 to 70).\<close>

definition on_data :: "nat \<Rightarrow> download_state \<Rightarrow> nat \<Rightarrow> download_state" where
  "on_data maxBytes st chunk =
    (let st1 = st\<lparr>total := total st + chunk\<rparr> in
     if total st1 > maxBytes
     then st1\<lparr>aborted := True, destroyed := True\<rparr>
     else st1\<lparr>chunks := chunks st1 @ [chunk]\<rparr>)"

text \<open>
  Delivery of the body: each chunk is handed to the \<^verbatim>\<open>'data'\<close> handler; a destroyed
  response delivers no further chunk.
\<close>

fun deliver :: "nat \<Rightarrow> download_state \<Rightarrow> nat list \<Rightarrow> download_state" where
  "deliver maxBytes st [] = st"
| "deliver maxBytes st (chunk # rest) =
    (if destroyed st then st else deliver maxBytes (on_data maxBytes st chunk) rest)"

text \<open>
  What one call does: how its promise ends, what it writes to \<^verbatim>\<open>dest\<close> (the number of
  bytes, \<open>None\<close> when \<^verbatim>\<open>fs.writeFile\<close> is never reached), the chunks it holds in memory
  at that moment, and what became of the response stream: drained unread by
  \<^verbatim>\<open>res.resume()\<close>, destroyed by \<^verbatim>\<open>res.destroy()\<close>, or read up to its \<^verbatim>\<open>'end'\<close> event.
\<close>

datatype stream_fate = NoStream | Resumed | Destroyed | ReadToEnd

record download_run =
  outcome :: "download_result promise"
  dest_write :: "nat option"
  buffered :: "nat list"
  stream :: stream_fate

text \<open>
  The \<^verbatim>\<open>'end'\<close> handler (lines 71 to 80). \<open>write_fails\<close> is the environment's answer to
  \<^verbatim>\<open>fs.writeFile\<close>: a failing write rejects the promise and is taken to leave no file.
\<close>

definition on_end :: "bool \<Rightarrow> download_state \<Rightarrow> download_run" where
  "on_end write_fails st =
    (if aborted st
     then \<lparr>outcome = Resolved TooLarge, dest_write = None, buffered = chunks st,
           stream = (if destroyed st then Destroyed else ReadToEnd)\<rparr>
     else if write_fails
     then \<lparr>outcome = Rejected, dest_write = None, buffered = chunks st, stream = ReadToEnd\<rparr>
     else \<lparr>outcome = Resolved (Ok (total st)), dest_write = Some (sum_list (chunks st)),
           buffered = chunks st, stream = ReadToEnd\<rparr>)"

text \<open>
  The source resolves the aborted download inside the \<^verbatim>\<open>'end'\<close> handler. Whether a response
  that was destroyed still emits \<^verbatim>\<open>'end'\<close> is decided by the Node.js runtime, not by the
  script, so it belongs to the environment of a download: with \<open>end_after_destroy\<close> the
  handler runs after the abort, without it no handler runs again and the promise stays
  pending.
\<close>

record runtime =
  end_after_destroy :: bool

definition header_exceeds :: "header_value \<Rightarrow> nat \<Rightarrow> bool" where
  "header_exceeds h maxBytes =
    (case h of Missing \<Rightarrow> False | NaN \<Rightarrow> False | Num n \<Rightarrow> n > int maxBytes)"

definition downloadWithLimit :: "runtime \<Rightarrow> http_get \<Rightarrow> bool \<Rightarrow> nat \<Rightarrow> download_run" where
  "downloadWithLimit rt get write_fails maxBytes =
    (case get of
       NetworkError \<Rightarrow>
         \<lparr>outcome = Rejected, dest_write = None, buffered = [], stream = NoStream\<rparr>
     | Response res \<Rightarrow>
         if statusCode res \<noteq> 200
         then \<lparr>outcome = Resolved (BadStatus (statusCode res)), dest_write = None,
               buffered = [], stream = Resumed\<rparr>
         else if header_exceeds (content_length res) maxBytes
         then \<lparr>outcome = Resolved TooLarge, dest_write = None, buffered = [],
               stream = Resumed\<rparr>
         else
           (let st = deliver maxBytes initial_download_state (body res) in
            if destroyed st \<and> \<not> end_after_destroy rt
            then \<lparr>outcome = Pending, dest_write = None, buffered = chunks st,
                  stream = Destroyed\<rparr>
            else on_end write_fails st))"


section \<open>\<^verbatim>\<open>extractImages\<close> and the collector of \<^verbatim>\<open>main\<close>\<close>

text \<open>
  The metadata endpoint is the environment too. \<^verbatim>\<open>fetchJson\<close> rejects (a network error, a
  status other than 200, a body that is not JSON) or resolves with the parsed payload. A
  payload is falsy, or a value whose \<^verbatim>\<open>images\<close> field is an array or is not. An element of
  the array is an object whose \<^verbatim>\<open>url\<close> and \<^verbatim>\<open>urlbase\<close> fields are strings or absent, the
  shape the spec gives for the endpoint.
\<close>

record item =
  item_url :: "string option"
  item_urlbase :: "string option"

datatype payload = Falsy | Object "item list option"

datatype fetch_result = FetchFailed | Json payload

type_synonym archive = "nat \<Rightarrow> nat \<Rightarrow> string \<Rightarrow> fetch_result"

definition extractImages :: "payload \<Rightarrow> item list" where
  "extractImages p =
    (case p of
       Falsy \<Rightarrow> []
     | Object (Some imgs) \<Rightarrow> imgs
     | Object None \<Rightarrow> [])"

text \<open>
  JavaScript's \<^verbatim>\<open>s || null\<close> and \<^verbatim>\<open>s ? f(s) : null\<close> on a string that may be absent: the
  absent and the empty string are falsy.
\<close>

fun truthy :: "string option \<Rightarrow> string option" where
  "truthy None = None"
| "truthy (Some []) = None"
| "truthy (Some (c # cs)) = Some (c # cs)"

record candidate =
  url :: string
  urlBase :: "string option"

text \<open>
  The accumulators of the collector: \<^verbatim>\<open>images\<close>, \<^verbatim>\<open>seen\<close>, and the requests sent to the
  endpoint so far (day offset and market, in the order sent).
\<close>

record collector =
  images :: "candidate list"
  seen :: "string set"
  requests :: "(nat \<times> string) list"

definition dedupeKey :: "candidate \<Rightarrow> string" where
  "dedupeKey c = (case urlBase c of Some b \<Rightarrow> b | None \<Rightarrow> url c)"

text \<open>
  The candidate made of one item (lines 149 to 151): \<open>None\<close> when the item has no usable
  \<^verbatim>\<open>url\<close> and is skipped.
\<close>

definition candidate_of :: "item \<Rightarrow> candidate option" where
  "candidate_of it =
    (case truthy (item_url it) of
       None \<Rightarrow> None
     | Some u \<Rightarrow> Some \<lparr>url = ''https://www.bing.com'' @ u, urlBase = truthy (item_urlbase it)\<rparr>)"

text \<open>\<^verbatim>\<open>seen.add(dedupeKey); images.push({ url, urlBase })\<close> (lines 154 and 155).\<close>

definition add_candidate :: "collector \<Rightarrow> candidate \<Rightarrow> collector" where
  "add_candidate c cand =
    c\<lparr>seen := insert (dedupeKey cand) (seen c), images := images c @ [cand]\<rparr>"

text \<open>The loop over the items of one payload (lines 148 to 157).\<close>

fun items_loop :: "collector \<Rightarrow> item list \<Rightarrow> collector" where
  "items_loop c [] = c"
| "items_loop c (it # rest) =
    (case candidate_of it of
       None \<Rightarrow> items_loop c rest
     | Some cand \<Rightarrow>
         if dedupeKey cand \<in> seen c then items_loop c rest
         else
           (let c' = add_candidate c cand
            in if length (images c') \<ge> TARGET_COUNT then c' else items_loop c' rest))"

text \<open>The loop over the markets for one day offset (lines 136 to 159).\<close>

fun markets_loop :: "archive \<Rightarrow> nat \<Rightarrow> collector \<Rightarrow> string list \<Rightarrow> collector" where
  "markets_loop fetchJson idx c [] = c"
| "markets_loop fetchJson idx c (market # rest) =
    (let c1 = c\<lparr>requests := requests c @ [(idx, market)]\<rparr> in
     case fetchJson idx BATCH_SIZE market of
       FetchFailed \<Rightarrow> markets_loop fetchJson idx c1 rest
     | Json p \<Rightarrow>
         (let items = extractImages p in
          if length items = 0 then markets_loop fetchJson idx c1 rest
          else
            (let c2 = items_loop c1 items in
             if length (images c2) \<ge> TARGET_COUNT then c2
             else markets_loop fetchJson idx c2 rest)))"

text \<open>The loop over the day offsets (lines 135 to 162).\<close>

function days_loop :: "archive \<Rightarrow> nat \<Rightarrow> collector \<Rightarrow> collector" where
  "days_loop fetchJson idx c =
    (if length (images c) < TARGET_COUNT \<and> idx < MAX_FETCH_DAYS
     then days_loop fetchJson (idx + BATCH_SIZE) (markets_loop fetchJson idx c MARKETS)
     else c)"
  by pat_completeness auto
termination
  by (relation "measure (\<lambda>(fetchJson, idx, c). MAX_FETCH_DAYS - idx)")
     (auto simp: BATCH_SIZE_def)

declare days_loop.simps [simp del]

definition collect :: "archive \<Rightarrow> collector" where
  "collect fetchJson = days_loop fetchJson 0 \<lparr>images = [], seen = {}, requests = []\<rparr>"

text \<open>
  Padding (lines 169 to 174). \<^verbatim>\<open>main\<close> reaches it only with a list that is not empty, so
  the index \<^verbatim>\<open>images.length % original.length\<close> is within \<^verbatim>\<open>original\<close>.
\<close>

function pad_loop :: "'a list \<Rightarrow> 'a list \<Rightarrow> 'a list" where
  "pad_loop original imgs =
    (if length imgs < TARGET_COUNT
     then pad_loop original (imgs @ [original ! (length imgs mod length original)])
     else imgs)"
  by pat_completeness auto
termination
  by (relation "measure (\<lambda>(original, imgs). TARGET_COUNT - length imgs)") auto

declare pad_loop.simps [simp del]

definition pad :: "'a list \<Rightarrow> 'a list" where
  "pad imgs = (if length imgs < TARGET_COUNT then pad_loop imgs imgs else imgs)"


section \<open>\<^verbatim>\<open>compressToLimit\<close>: the search over widths and qualities\<close>

text \<open>
  What \<^verbatim>\<open>sharp\<close> makes of the bytes of a file: \<^verbatim>\<open>metadata()\<close> rejects (\<open>None\<close>) or reports a
  width, which may be absent; encoding at a width and a quality gives an output of some
  length, or rejects (\<open>None\<close>).
\<close>

record image =
  metadata :: "nat option option"
  encode :: "nat \<Rightarrow> nat \<Rightarrow> nat option"

text \<open>\<^verbatim>\<open>arr.indexOf(w)\<close>, and the filter \<^verbatim>\<open>arr.indexOf(w) === idx\<close> that keeps first occurrences.\<close>

fun indexOf :: "'a list \<Rightarrow> 'a \<Rightarrow> nat option" where
  "indexOf [] w = None"
| "indexOf (x # xs) w = (if x = w then Some 0 else map_option Suc (indexOf xs w))"

definition first_occurrences :: "'a list \<Rightarrow> 'a list" where
  "first_occurrences arr =
    map snd (filter (\<lambda>(idx, w). indexOf arr w = Some idx) (enumerate 0 arr))"

definition width_candidates :: "nat \<Rightarrow> nat list" where
  "width_candidates width =
    first_occurrences
      (filter (\<lambda>w. w > 0 \<and> w \<le> width) [width, 1000, 900, 800, 700, 640, 560, 480, 400])"

definition qualities :: "nat list" where
  "qualities = [80, 70, 60, 55, 50, 45, 40, 35]"

text \<open>
  How the call ends: it wrote the output of one width and quality back and returned
  \<^verbatim>\<open>true\<close>, it returned \<^verbatim>\<open>false\<close>, or an encoding rejected and the call threw.
\<close>

datatype compress_result = Accepted nat nat nat | Failed | Threw

fun try_qualities :: "(nat \<Rightarrow> nat \<Rightarrow> nat option) \<Rightarrow> nat \<Rightarrow> nat \<Rightarrow> nat list \<Rightarrow> compress_result"
  where
  "try_qualities enc maxBytes targetWidth [] = Failed"
| "try_qualities enc maxBytes targetWidth (quality # rest) =
    (case enc targetWidth quality of
       None \<Rightarrow> Threw
     | Some n \<Rightarrow>
         if n \<le> maxBytes then Accepted targetWidth quality n
         else try_qualities enc maxBytes targetWidth rest)"

fun try_widths :: "(nat \<Rightarrow> nat \<Rightarrow> nat option) \<Rightarrow> nat \<Rightarrow> nat list \<Rightarrow> compress_result" where
  "try_widths enc maxBytes [] = Failed"
| "try_widths enc maxBytes (targetWidth # rest) =
    (case try_qualities enc maxBytes targetWidth qualities of
       Failed \<Rightarrow> try_widths enc maxBytes rest
     | Accepted w q n \<Rightarrow> Accepted w q n
     | Threw \<Rightarrow> Threw)"

text \<open>\<^verbatim>\<open>meta.width || 0\<close>: an absent width, and the width 0, give 0.\<close>

definition width_or_zero :: "nat option \<Rightarrow> nat" where
  "width_or_zero w = (case w of None \<Rightarrow> 0 | Some n \<Rightarrow> n)"

definition compressToLimit :: "image \<Rightarrow> nat \<Rightarrow> compress_result" where
  "compressToLimit img maxBytes =
    (case metadata img of
       None \<Rightarrow> Failed
     | Some w \<Rightarrow>
         (let width = width_or_zero w
          in try_widths (encode img) maxBytes (width_candidates width)))"


section \<open>The download loop of \<^verbatim>\<open>main\<close>\<close>

definition buildImageUrl :: "string option \<Rightarrow> string \<Rightarrow> string" where
  "buildImageUrl base sz =
    ''https://www.bing.com'' @ (case base of None \<Rightarrow> ''null'' | Some b \<Rightarrow> b) @ ''_'' @ sz
      @ ''.jpg''"

text \<open>
  What the environment answers to one download: how the runtime treats the response
  once it is destroyed, the response (or the network error), whether writing the
  destination file fails, and what \<^verbatim>\<open>sharp\<close> makes of the bytes.
  The environment is asked by the position of the image in the list, the position of the
  URL in its ladder, and the URL, so no two requests of a run need to agree.
\<close>

record attempt_env =
  node :: runtime
  conn :: http_get
  write_fails :: bool
  content :: image

type_synonym downloads = "nat \<Rightarrow> nat \<Rightarrow> string \<Rightarrow> attempt_env"

text \<open>
  The state of the loop: the files of the output directory that this run wrote (the
  number \<open>n\<close> stands for \<^verbatim>\<open>n.jpg\<close>, mapped to its size in bytes), the counter \<^verbatim>\<open>saved\<close>,
  and whether the run is stuck awaiting a promise that stays pending.
\<close>

record run_state =
  files :: "nat \<rightharpoonup> nat"
  saved :: nat
  stalled :: bool

datatype step = Stored | Next | Stall

text \<open>The body of the loop over the URL ladder, for one URL (lines 184 to 202).\<close>

definition attempt :: "attempt_env \<Rightarrow> run_state \<Rightarrow> run_state \<times> step" where
  "attempt a st =
    (let outPath = saved st + 1;
         d = downloadWithLimit (node a) (conn a) (write_fails a) MAX_DOWNLOAD_BYTES;
         fs = (case dest_write d of None \<Rightarrow> files st | Some n \<Rightarrow> (files st)(outPath \<mapsto> n))
     in case outcome d of
          Pending \<Rightarrow> (st\<lparr>files := fs, stalled := True\<rparr>, Stall)
        | Rejected \<Rightarrow> (st\<lparr>files := fs\<rparr>, Next)
        | Resolved (BadStatus code) \<Rightarrow> (st\<lparr>files := fs\<rparr>, Next)
        | Resolved TooLarge \<Rightarrow> (st\<lparr>files := fs\<rparr>, Next)
        | Resolved (Ok bytes) \<Rightarrow>
            (case fs outPath of
               None \<Rightarrow> (st\<lparr>files := fs\<rparr>, Next)
             | Some sz \<Rightarrow>
                 if sz > MAX_BYTES
                 then
                   (case compressToLimit (content a) MAX_BYTES of
                      Accepted w q n \<Rightarrow>
                        (st\<lparr>files := fs(outPath \<mapsto> n), saved := saved st + 1\<rparr>, Stored)
                    | Failed \<Rightarrow> (st\<lparr>files := fs(outPath := None)\<rparr>, Next)
                    | Threw \<Rightarrow> (st\<lparr>files := fs\<rparr>, Next))
                 else (st\<lparr>files := fs, saved := saved st + 1\<rparr>, Stored)))"

text \<open>The loop over the URL ladder of one image; it returns the state and \<^verbatim>\<open>stored\<close>.\<close>

fun try_candidates ::
  "(nat \<Rightarrow> string \<Rightarrow> attempt_env) \<Rightarrow> run_state \<Rightarrow> (nat \<times> string) list
    \<Rightarrow> run_state \<times> bool" where
  "try_candidates env st [] = (st, False)"
| "try_candidates env st ((j, imageUrl) # rest) =
    (case attempt (env j imageUrl) st of
       (st', Stored) \<Rightarrow> (st', True)
     | (st', Next) \<Rightarrow> try_candidates env st' rest
     | (st', Stall) \<Rightarrow> (st', False))"

definition url_ladder :: "candidate \<Rightarrow> (nat \<times> string) list" where
  "url_ladder c = enumerate 0 (url c # map (buildImageUrl (urlBase c)) SIZE_CANDIDATES)"

text \<open>
  The loop over the images (lines 177 to 208), from index \<open>i\<close> on. A stalled run takes no
  further step.
\<close>

fun download_loop :: "downloads \<Rightarrow> nat \<Rightarrow> run_state \<Rightarrow> candidate list \<Rightarrow> run_state" where
  "download_loop env i st [] = st"
| "download_loop env i st (c # rest) =
    (if saved st < TARGET_COUNT \<and> \<not> stalled st
     then download_loop env (i + 1) (fst (try_candidates (env i) st (url_ladder c))) rest
     else st)"

text \<open>
  One run of \<^verbatim>\<open>main\<close>, from an output directory that \<^verbatim>\<open>ensureDir\<close> could create. The exit
  status is 1 when \<^verbatim>\<open>process.exit(1)\<close> is reached and 0 otherwise: a run that returns, and
  a run left with a pending promise and no work, both end with the default status of the
  runtime.
\<close>

record run =
  exit_status :: nat
  collected :: "candidate list"
  final :: run_state

definition main :: "archive \<Rightarrow> downloads \<Rightarrow> run" where
  "main fetchJson env =
    (let imgs = images (collect fetchJson);
         start = \<lparr>files = Map.empty, saved = 0, stalled = False\<rparr>
     in if length imgs = 0
        then \<lparr>exit_status = 1, collected = imgs, final = start\<rparr>
        else \<lparr>exit_status = 0, collected = pad imgs,
              final = download_loop env 0 start (pad imgs)\<rparr>)"


section \<open>The search of \<^verbatim>\<open>compressToLimit\<close> as the spec describes it\<close>

text \<open>
  The spec describes the re-encoder as one search over a grid of pairs of a width and a
  quality, in width-major and quality-minor order, that accepts the first pair whose
  output fits. These definitions follow those words; the theorems below compare them
  with the two nested loops of the source.
\<close>

definition grid :: "nat \<Rightarrow> (nat \<times> nat) list" where
  "grid width = List.product (width_candidates width) qualities"

fun first_fit :: "(nat \<Rightarrow> nat \<Rightarrow> nat option) \<Rightarrow> nat \<Rightarrow> (nat \<times> nat) list \<Rightarrow> compress_result"
  where
  "first_fit enc budget [] = Failed"
| "first_fit enc budget ((w, q) # rest) =
    (case enc w q of
       None \<Rightarrow> Threw
     | Some n \<Rightarrow> if n \<le> budget then Accepted w q n else first_fit enc budget rest)"

text \<open>A pair is preferred to another: a higher width, or the same width and a higher quality.\<close>

definition preferred :: "nat \<times> nat \<Rightarrow> nat \<times> nat \<Rightarrow> bool" where
  "preferred p r = (fst p > fst r \<or> (fst p = fst r \<and> snd p > snd r))"

text \<open>A pair was tried and its output was above the budget.\<close>

definition tried_too_big :: "(nat \<Rightarrow> nat \<Rightarrow> nat option) \<Rightarrow> nat \<Rightarrow> nat \<times> nat \<Rightarrow> bool" where
  "tried_too_big enc budget p =
    (case enc (fst p) (snd p) of None \<Rightarrow> False | Some n \<Rightarrow> n > budget)"


section \<open>The collector as one pass over the requests\<close>

text \<open>
  The collector, read as a single loop over a list of requests (a day offset and a
  market each): a request is sent only while fewer than \<^verbatim>\<open>TARGET_COUNT\<close> candidates are
  collected, and its items are processed as the source does. The theorems below compare
  it with the nested loops of the source, over the two orders a nesting can give.
\<close>

definition visit :: "archive \<Rightarrow> collector \<Rightarrow> nat \<times> string \<Rightarrow> collector" where
  "visit fetchJson c p =
    (let c1 = c\<lparr>requests := requests c @ [p]\<rparr> in
     case fetchJson (fst p) BATCH_SIZE (snd p) of
       FetchFailed \<Rightarrow> c1
     | Json payload \<Rightarrow> items_loop c1 (extractImages payload))"

fun collect_in_order :: "archive \<Rightarrow> collector \<Rightarrow> (nat \<times> string) list \<Rightarrow> collector" where
  "collect_in_order fetchJson c [] = c"
| "collect_in_order fetchJson c (p # ps) =
    (if length (images c) \<ge> TARGET_COUNT then c
     else collect_in_order fetchJson (visit fetchJson c p) ps)"

text \<open>Day offsets outside and markets inside; markets outside and day offsets inside.\<close>

definition day_major :: "(nat \<times> string) list" where
  "day_major = concat (map (\<lambda>idx. map (\<lambda>market. (idx, market)) MARKETS) [0..<MAX_FETCH_DAYS])"

definition locale_major :: "(nat \<times> string) list" where
  "locale_major =
    concat (map (\<lambda>market. map (\<lambda>idx. (idx, market)) [0..<MAX_FETCH_DAYS]) MARKETS)"


section \<open>Invariants of the download loop\<close>

text \<open>
  The files of the run are numbered from 1 without a gap: they are \<^verbatim>\<open>1.jpg\<close> to
  \<^verbatim>\<open>saved.jpg\<close>, and possibly one more file under the next name, which a later download
  would overwrite.
\<close>

definition numbered :: "run_state \<Rightarrow> bool" where
  "numbered st =
    (saved st \<le> TARGET_COUNT \<and>
     (dom (files st) = {1..saved st} \<or>
      (saved st < TARGET_COUNT \<and> dom (files st) = {1..saved st + 1})))"

text \<open>The files are exactly the saved ones and none is above the budget.\<close>

definition within_budget :: "run_state \<Rightarrow> bool" where
  "within_budget st =
    (dom (files st) = {1..saved st} \<and> (\<forall>n\<in>ran (files st). n \<le> MAX_BYTES))"


section \<open>Small environments for concrete runs\<close>

text \<open>
  An endpoint that answers every request with the same single image, and four answers
  to a download: a 404; a JPEG of 1000 bytes; a file of 600000 bytes whose metadata
  \<^verbatim>\<open>sharp\<close> reads (width 1920) but whose pixel data it cannot encode, so that every
  \<^verbatim>\<open>toBuffer()\<close> rejects; and a 200 response without \<^verbatim>\<open>content-length\<close> whose body comes in
  three chunks of 6000000 bytes, on a runtime that emits no \<^verbatim>\<open>'end'\<close> for a response that was
  destroyed. \<open>first_only a\<close> answers the first URL of the first image with \<open>a\<close> and every
  other download with the 404.
\<close>

definition one_image :: archive where
  "one_image = (\<lambda>idx n market. Json (Object (Some
     [\<lparr>item_url = Some ''/th?id=OHR.A_1920x1080.jpg'', item_urlbase = Some ''/th?id=OHR.A''\<rparr>])))"

definition not_found :: attempt_env where
  "not_found =
    \<lparr>node = \<lparr>end_after_destroy = True\<rparr>,
     conn = Response \<lparr>statusCode = 404, content_length = Missing, body = []\<rparr>,
     write_fails = False, content = \<lparr>metadata = None, encode = (\<lambda>w q. None)\<rparr>\<rparr>"

definition small_jpeg :: attempt_env where
  "small_jpeg =
    \<lparr>node = \<lparr>end_after_destroy = True\<rparr>,
     conn = Response \<lparr>statusCode = 200, content_length = Num 1000, body = [1000]\<rparr>,
     write_fails = False,
     content = \<lparr>metadata = Some (Some 640), encode = (\<lambda>w q. Some 900)\<rparr>\<rparr>"

definition broken_jpeg :: attempt_env where
  "broken_jpeg =
    \<lparr>node = \<lparr>end_after_destroy = True\<rparr>,
     conn = Response \<lparr>statusCode = 200, content_length = Missing, body = [600000]\<rparr>,
     write_fails = False,
     content = \<lparr>metadata = Some (Some 1920), encode = (\<lambda>w q. None)\<rparr>\<rparr>"

definition oversized_stream :: attempt_env where
  "oversized_stream =
    \<lparr>node = \<lparr>end_after_destroy = False\<rparr>,
     conn = Response \<lparr>statusCode = 200, content_length = Missing,
                       body = [6000000, 6000000, 6000000]\<rparr>,
     write_fails = False,
     content = \<lparr>metadata = Some (Some 1920), encode = (\<lambda>w q. Some 400000)\<rparr>\<rparr>"

definition first_only :: "attempt_env \<Rightarrow> downloads" where
  "first_only a = (\<lambda>i j u. if i = 0 \<and> j = 0 then a else not_found)"


section \<open>Properties of \<^verbatim>\<open>downloadWithLimit\<close>\<close>

lemma deliver_destroyed: "destroyed st \<Longrightarrow> deliver m st cs = st"
  by (cases cs) simp_all

lemma deliver_fits:
  "\<not> destroyed st \<Longrightarrow> total st + sum_list cs \<le> m \<Longrightarrow>
   deliver m st cs = st\<lparr>total := total st + sum_list cs, chunks := chunks st @ cs\<rparr>"
proof (induction cs arbitrary: st)
  case Nil
  then show ?case by simp
next
  case (Cons c cs)
  define st1 where "st1 = st\<lparr>total := total st + c, chunks := chunks st @ [c]\<rparr>"
  have step: "deliver m st (c # cs) = deliver m st1 cs"
    using Cons.prems by (simp add: on_data_def Let_def st1_def)
  have "deliver m st1 cs = st1\<lparr>total := total st1 + sum_list cs, chunks := chunks st1 @ cs\<rparr>"
    using Cons.prems by (intro Cons.IH) (simp_all add: st1_def)
  then show ?case
    unfolding step by (simp add: st1_def add.assoc)
qed

lemma deliver_overflow:
  "\<not> destroyed st \<Longrightarrow> total st \<le> m \<Longrightarrow> total st + sum_list cs > m \<Longrightarrow>
   \<exists>taken c rest. cs = taken @ c # rest \<and>
      total st + sum_list taken \<le> m \<and> total st + sum_list taken + c > m \<and>
      deliver m st cs = st\<lparr>total := total st + sum_list taken + c,
                           chunks := chunks st @ taken, aborted := True, destroyed := True\<rparr>"
proof (induction cs arbitrary: st)
  case Nil
  then show ?case by simp
next
  case (Cons c cs)
  show ?case
  proof (cases "total st + c > m")
    case True
    have "deliver m st (c # cs) =
        st\<lparr>total := total st + sum_list [] + c, chunks := chunks st @ [], aborted := True,
           destroyed := True\<rparr>"
      using True Cons.prems by (simp add: on_data_def Let_def deliver_destroyed)
    moreover have "c # cs = [] @ c # cs" by simp
    moreover have "total st + sum_list [] \<le> m" "total st + sum_list [] + c > m"
      using True Cons.prems by simp_all
    ultimately show ?thesis by blast
  next
    case False
    define st1 where "st1 = st\<lparr>total := total st + c, chunks := chunks st @ [c]\<rparr>"
    have step: "deliver m st (c # cs) = deliver m st1 cs"
      using False Cons.prems by (simp add: on_data_def Let_def st1_def)
    have "\<not> destroyed st1" "total st1 \<le> m" "total st1 + sum_list cs > m"
      using False Cons.prems by (simp_all add: st1_def)
    from Cons.IH[OF this] obtain taken c' rest where
      t: "cs = taken @ c' # rest" "total st1 + sum_list taken \<le> m"
         "total st1 + sum_list taken + c' > m"
         "deliver m st1 cs = st1\<lparr>total := total st1 + sum_list taken + c',
            chunks := chunks st1 @ taken, aborted := True, destroyed := True\<rparr>"
      by blast
    have "c # cs = (c # taken) @ c' # rest" using t(1) by simp
    moreover have "total st + sum_list (c # taken) \<le> m"
      "total st + sum_list (c # taken) + c' > m"
      using t(2,3) by (simp_all add: st1_def)
    moreover have "deliver m st (c # cs) = st\<lparr>total := total st + sum_list (c # taken) + c',
            chunks := chunks st @ (c # taken), aborted := True, destroyed := True\<rparr>"
      unfolding step t(4) by (simp add: st1_def add.assoc)
    ultimately show ?thesis by blast
  qed
qed

text \<open>
  A download that fits: the whole body is buffered, written, and reported with its length.
\<close>

lemma downloadWithLimit_fits:
  assumes "statusCode res = 200"
    and "\<not> header_exceeds (content_length res) maxBytes"
    and "sum_list (body res) \<le> maxBytes"
  shows "downloadWithLimit rt (Response res) wfail maxBytes =
     (if wfail
      then \<lparr>outcome = Rejected, dest_write = None, buffered = body res, stream = ReadToEnd\<rparr>
      else \<lparr>outcome = Resolved (Ok (sum_list (body res))),
            dest_write = Some (sum_list (body res)), buffered = body res,
            stream = ReadToEnd\<rparr>)"
proof -
  have "deliver maxBytes initial_download_state (body res) =
      \<lparr>chunks = body res, total = sum_list (body res), aborted = False, destroyed = False\<rparr>"
    using deliver_fits[of initial_download_state "body res" maxBytes] assms(3)
    by (simp add: initial_download_state_def)
  then show ?thesis
    using assms(1,2) by (simp add: downloadWithLimit_def on_end_def)
qed

text \<open>
  A download that overflows: the body splits at the chunk that takes the running total
  over the limit, and nothing is written.
\<close>

lemma downloadWithLimit_overflow:
  assumes "statusCode res = 200"
    and "\<not> header_exceeds (content_length res) maxBytes"
    and "sum_list (body res) > maxBytes"
  shows "\<exists>taken c rest. body res = taken @ c # rest \<and>
      sum_list taken \<le> maxBytes \<and> sum_list taken + c > maxBytes \<and>
      downloadWithLimit rt (Response res) wfail maxBytes =
        \<lparr>outcome = (if end_after_destroy rt then Resolved TooLarge else Pending),
         dest_write = None, buffered = taken, stream = Destroyed\<rparr>"
proof -
  have "\<not> destroyed initial_download_state" "total initial_download_state \<le> maxBytes"
    "total initial_download_state + sum_list (body res) > maxBytes"
    using assms(3) by (simp_all add: initial_download_state_def)
  from deliver_overflow[OF this] obtain taken c rest where
    t: "body res = taken @ c # rest" "sum_list taken \<le> maxBytes"
       "sum_list taken + c > maxBytes"
       "deliver maxBytes initial_download_state (body res) =
          \<lparr>chunks = taken, total = sum_list taken + c, aborted = True, destroyed = True\<rparr>"
    by (auto simp: initial_download_state_def)
  have "downloadWithLimit rt (Response res) wfail maxBytes =
        \<lparr>outcome = (if end_after_destroy rt then Resolved TooLarge else Pending),
         dest_write = None, buffered = taken, stream = Destroyed\<rparr>"
    using assms(1,2) by (simp add: downloadWithLimit_def t(4) on_end_def)
  with t(1-3) show ?thesis by blast
qed

text \<open>
  Claim C7, as the code has it. A response whose \<^verbatim>\<open>content-length\<close> header is a number above
  the limit never reaches the stream handlers: no chunk of the body is buffered (the body
  is drained unread by \<^verbatim>\<open>res.resume()\<close>), nothing is written to the destination, and the
  promise is resolved at once. The value is \<^verbatim>\<open>too-large\<close> when the status is 200; the status
  is checked before the header, so any other status is reported as a bad status instead.
\<close>

theorem content_length_over_limit:
  assumes "content_length res = Num n" and "n > int maxBytes"
  shows "downloadWithLimit rt (Response res) wfail maxBytes =
     \<lparr>outcome = (if statusCode res = 200 then Resolved TooLarge
                  else Resolved (BadStatus (statusCode res))),
      dest_write = None, buffered = [], stream = Resumed\<rparr>"
  using assms by (simp add: downloadWithLimit_def header_exceeds_def)

theorem content_length_over_limit_witness:
  "downloadWithLimit \<lparr>end_after_destroy = False\<rparr>
     (Response \<lparr>statusCode = 200, content_length = Num 20000000, body = [65536, 65536]\<rparr>)
     False MAX_DOWNLOAD_BYTES =
   \<lparr>outcome = Resolved TooLarge, dest_write = None, buffered = [], stream = Resumed\<rparr>"
  using content_length_over_limit
    [of "\<lparr>statusCode = 200, content_length = Num 20000000, body = [65536, 65536]\<rparr>"
        20000000 MAX_DOWNLOAD_BYTES "\<lparr>end_after_destroy = False\<rparr>" False]
  by (simp add: MAX_DOWNLOAD_BYTES_def)

text \<open>
  The claim as the spec words it, for every response, fails on a response that is not a
  200: its header is above the limit and the outcome is the status, not \<^verbatim>\<open>too-large\<close>.
\<close>

theorem content_length_bad_status_counterexample:
  "header_exceeds (Num 20000000) MAX_DOWNLOAD_BYTES \<and>
   outcome (downloadWithLimit \<lparr>end_after_destroy = True\<rparr>
     (Response \<lparr>statusCode = 404, content_length = Num 20000000, body = [20000000]\<rparr>)
     False MAX_DOWNLOAD_BYTES) = Resolved (BadStatus 404) \<and>
   Resolved (BadStatus 404) \<noteq> Resolved TooLarge"
  by (simp add: downloadWithLimit_def header_exceeds_def MAX_DOWNLOAD_BYTES_def)

section \<open>Properties of \<^verbatim>\<open>compressToLimit\<close>\<close>

subsection \<open>The width ladder\<close>

lemma indexOf_SomeD:
  "indexOf xs w = Some i \<Longrightarrow> i < length xs \<and> xs ! i = w \<and> (\<forall>j<i. xs ! j \<noteq> w)"
proof (induction xs arbitrary: i)
  case Nil
  then show ?case by simp
next
  case (Cons x xs)
  show ?case
  proof (cases "x = w")
    case True
    with Cons.prems show ?thesis by simp
  next
    case False
    with Cons.prems obtain k where k: "indexOf xs w = Some k" "i = Suc k"
      by auto
    from Cons.IH[OF k(1)] have "k < length xs" "xs ! k = w" "\<forall>j<k. xs ! j \<noteq> w"
      by simp_all
    then show ?thesis
      using False k(2) by (auto simp: nth_Cons split: nat.splits)
  qed
qed

lemma indexOf_mem: "w \<in> set xs \<Longrightarrow> \<exists>i. indexOf xs w = Some i"
  by (induction xs) auto

lemma sorted_wrt_filter_both:
  "sorted_wrt (\<lambda>x y. Q x \<and> Q y \<longrightarrow> R x y) xs \<Longrightarrow> sorted_wrt R (filter Q xs)"
  by (induction xs) auto

lemma set_first_occurrences: "set (first_occurrences xs) = set xs"
proof
  show "set (first_occurrences xs) \<subseteq> set xs"
    by (auto simp: first_occurrences_def in_set_enumerate_eq)
next
  show "set xs \<subseteq> set (first_occurrences xs)"
  proof
    fix w assume "w \<in> set xs"
    then obtain i where i: "indexOf xs w = Some i" using indexOf_mem by force
    from indexOf_SomeD[OF i] have "i < length xs" "xs ! i = w" by simp_all
    then have "(i, w) \<in> set (enumerate 0 xs)"
      by (simp add: in_set_enumerate_eq)
    with i show "w \<in> set (first_occurrences xs)"
      by (force simp: first_occurrences_def)
  qed
qed

lemma first_occurrences_strict:
  assumes "sorted_wrt (\<ge>) (xs :: nat list)"
  shows "sorted_wrt (>) (first_occurrences xs)"
proof -
  let ?F = "\<lambda>(idx, w). indexOf xs w = Some idx"
  have "sorted_wrt (\<lambda>a b. ?F a \<and> ?F b \<longrightarrow> snd a > snd b) (enumerate 0 xs)"
    unfolding sorted_wrt_iff_nth_less
  proof (intro allI impI)
    fix i j assume ij: "i < j" "j < length (enumerate 0 xs)"
      and F: "?F (enumerate 0 xs ! i) \<and> ?F (enumerate 0 xs ! j)"
    have j: "j < length xs" and i: "i < length xs" using ij by simp_all
    have "indexOf xs (xs ! j) = Some j"
      using F j by (simp add: nth_enumerate_eq)
    from indexOf_SomeD[OF this] ij(1) have "xs ! i \<noteq> xs ! j" by simp
    moreover have "xs ! i \<ge> xs ! j"
      using assms ij(1) j by (simp add: sorted_wrt_iff_nth_less)
    ultimately show "snd (enumerate 0 xs ! i) > snd (enumerate 0 xs ! j)"
      using i j by (simp add: nth_enumerate_eq)
  qed
  then have "sorted_wrt (\<lambda>a b. snd a > snd b) (filter ?F (enumerate 0 xs))"
    by (rule sorted_wrt_filter_both)
  then show ?thesis
    by (simp add: first_occurrences_def sorted_wrt_map)
qed

lemma ladder_filtered_sorted:
  "sorted_wrt (\<ge>)
     (filter (\<lambda>w. w > 0 \<and> w \<le> width) [width, 1000, 900, 800, 700, 640, 560, 480, 400 :: nat])"
  by (rule sorted_wrt_filter_both) simp

lemma width_candidates_strict: "sorted_wrt (>) (width_candidates width)"
  unfolding width_candidates_def
  by (rule first_occurrences_strict) (rule ladder_filtered_sorted)

lemma set_width_candidates:
  "set (width_candidates width) =
     {w \<in> set [width, 1000, 900, 800, 700, 640, 560, 480, 400]. w > 0 \<and> w \<le> width}"
  unfolding width_candidates_def set_first_occurrences by auto

subsection \<open>The nested loops are the flat search over the grid\<close>

lemma first_fit_append:
  "first_fit enc m (ps @ rs) =
     (case first_fit enc m ps of Failed \<Rightarrow> first_fit enc m rs | Accepted w q n \<Rightarrow> Accepted w q n
      | Threw \<Rightarrow> Threw)"
  by (induction enc m ps rule: first_fit.induct) (auto split: option.splits)

lemma try_qualities_first_fit:
  "try_qualities enc m w qs = first_fit enc m (map (Pair w) qs)"
  by (induction qs) (auto split: option.splits)

lemma try_widths_first_fit:
  "try_widths enc m ws = first_fit enc m (List.product ws qualities)"
  by (induction ws)
     (auto simp: first_fit_append try_qualities_first_fit split: compress_result.splits)

lemma first_fit_Accepted:
  "first_fit enc m ps = Accepted w q n \<Longrightarrow>
   \<exists>pre post. ps = pre @ (w, q) # post \<and> (\<forall>p\<in>set pre. tried_too_big enc m p) \<and>
      enc w q = Some n \<and> n \<le> m"
proof (induction enc m ps rule: first_fit.induct)
  case (1 enc budget)
  then show ?case by simp
next
  case (2 enc budget w' q' rest)
  show ?case
  proof (cases "enc w' q'")
    case None
    with 2(2) show ?thesis by simp
  next
    case (Some k)
    show ?thesis
    proof (cases "k \<le> budget")
      case True
      with Some 2(2) have "w' = w" "q' = q" "k = n" by simp_all
      with Some True have "(w', q') # rest = [] @ (w, q) # rest" "enc w q = Some n"
        "n \<le> budget"
        by simp_all
      then show ?thesis by (metis empty_iff list.set(1))
    next
      case False
      with Some 2(2) have "first_fit enc budget rest = Accepted w q n" by simp
      from 2(1)[OF Some False this] obtain pre post where
        p: "rest = pre @ (w, q) # post" "\<forall>p\<in>set pre. tried_too_big enc budget p"
           "enc w q = Some n" "n \<le> budget"
        by blast
      have "tried_too_big enc budget (w', q')"
        using Some False by (simp add: tried_too_big_def)
      with p have "(w', q') # rest = ((w', q') # pre) @ (w, q) # post"
        "\<forall>p\<in>set ((w', q') # pre). tried_too_big enc budget p"
        by simp_all
      with p(3,4) show ?thesis by blast
    qed
  qed
qed

lemma qualities_strict: "sorted_wrt (>) qualities"
  by (simp add: qualities_def)

lemma product_preferred:
  "sorted_wrt (>) ws \<Longrightarrow> sorted_wrt (>) qs \<Longrightarrow> sorted_wrt preferred (List.product ws qs)"
  by (induction ws) (auto simp: sorted_wrt_append sorted_wrt_map preferred_def)

lemma grid_preferred: "sorted_wrt preferred (grid width)"
  unfolding grid_def by (rule product_preferred[OF width_candidates_strict qualities_strict])

lemma preferred_before:
  assumes "sorted_wrt preferred (pre @ x # post)" and "p \<in> set (pre @ x # post)"
    and "preferred p x"
  shows "p \<in> set pre"
proof (rule ccontr)
  assume "p \<notin> set pre"
  with assms(2) have "p = x \<or> p \<in> set post" by auto
  moreover have "\<forall>r\<in>set post. preferred x r"
    using assms(1) by (simp add: sorted_wrt_append)
  ultimately have "p = x \<or> preferred x p" by blast
  with assms(3) show False by (auto simp: preferred_def)
qed

text \<open>
  Claim C6. For an image whose metadata can be read, with source width \<open>width_or_zero mw\<close>:
  the width ladder is strictly descending (so it has no duplicates) and holds exactly the
  positive entries of the source width and the fixed list that do not exceed the source
  width (nothing is scaled up); the qualities are the fixed descending ladder; every pair
  of the grid is preferred to every pair after it; the two nested loops of
  \<^verbatim>\<open>compressToLimit\<close> are the search for the first pair of the grid whose output fits the
  budget; and when a pair is accepted, every preferred pair of the grid (a higher width,
  or the same width and a higher quality) was encoded before and came out above the budget.
\<close>

theorem compress_search_order:
  assumes "metadata img = Some mw"
  shows "sorted_wrt (>) (width_candidates (width_or_zero mw)) \<and>
    set (width_candidates (width_or_zero mw)) =
      {w \<in> set [width_or_zero mw, 1000, 900, 800, 700, 640, 560, 480, 400].
         w > 0 \<and> w \<le> width_or_zero mw} \<and>
    qualities = [80, 70, 60, 55, 50, 45, 40, 35] \<and>
    sorted_wrt preferred (grid (width_or_zero mw)) \<and>
    compressToLimit img budget = first_fit (encode img) budget (grid (width_or_zero mw)) \<and>
    (\<forall>w q n. compressToLimit img budget = Accepted w q n \<longrightarrow>
       (w, q) \<in> set (grid (width_or_zero mw)) \<and> encode img w q = Some n \<and> n \<le> budget \<and>
       (\<forall>p\<in>set (grid (width_or_zero mw)).
          preferred p (w, q) \<longrightarrow> tried_too_big (encode img) budget p))"
proof -
  let ?g = "grid (width_or_zero mw)"
  have ladder: "sorted_wrt (>) (width_candidates (width_or_zero mw))"
    by (rule width_candidates_strict)
  have members: "set (width_candidates (width_or_zero mw)) =
          {w \<in> set [width_or_zero mw, 1000, 900, 800, 700, 640, 560, 480, 400].
             w > 0 \<and> w \<le> width_or_zero mw}"
    by (rule set_width_candidates)
  have quals: "qualities = [80, 70, 60, 55, 50, 45, 40, 35]"
    by (rule qualities_def)
  have sorted: "sorted_wrt preferred ?g"
    by (rule grid_preferred)
  have flat: "compressToLimit img budget = first_fit (encode img) budget ?g"
    using assms by (simp add: compressToLimit_def grid_def try_widths_first_fit)
  have accepted: "(w, q) \<in> set ?g \<and> encode img w q = Some n \<and> n \<le> budget \<and>
          (\<forall>p\<in>set ?g. preferred p (w, q) \<longrightarrow> tried_too_big (encode img) budget p)"
    if "compressToLimit img budget = Accepted w q n" for w q n
  proof -
    from that have "first_fit (encode img) budget ?g = Accepted w q n"
      using flat by simp
    from first_fit_Accepted[OF this] obtain pre post where
      p: "?g = pre @ (w, q) # post" "\<forall>p\<in>set pre. tried_too_big (encode img) budget p"
         "encode img w q = Some n" "n \<le> budget"
      by blast
    have "\<forall>p\<in>set ?g. preferred p (w, q) \<longrightarrow> p \<in> set pre"
      using preferred_before[of pre "(w, q)" post] sorted unfolding p(1) by blast
    with p show ?thesis
      by auto
  qed
  from ladder members quals sorted flat accepted show ?thesis
    by blast
qed

theorem compress_search_order_witness:
  "metadata \<lparr>metadata = Some (Some 1920), encode = (\<lambda>w q. Some (w * q * 8))\<rparr>
     = Some (Some 1920) \<and>
   compressToLimit \<lparr>metadata = Some (Some 1920), encode = (\<lambda>w q. Some (w * q * 8))\<rparr> MAX_BYTES
     = Accepted 1000 60 480000 \<and>
   (1000, 70) \<in> set (grid 1920) \<and> preferred (1000, 70) (1000, 60) \<and>
   tried_too_big (\<lambda>w q. Some (w * q * 8)) MAX_BYTES (1000, 70) \<and>
   (1920, 35) \<in> set (grid 1920) \<and> preferred (1920, 35) (1000, 60) \<and>
   tried_too_big (\<lambda>w q. Some (w * q * 8)) MAX_BYTES (1920, 35)"
proof -
  let ?img = "\<lparr>metadata = Some (Some 1920), encode = (\<lambda>w q. Some (w * q * 8))\<rparr>"
  have m: "metadata ?img = Some (Some 1920)" by simp
  have wc: "width_candidates 1920 = [1920, 1000, 900, 800, 700, 640, 560, 480, 400]"
    by (simp add: width_candidates_def first_occurrences_def enumerate_eq_zip)
  have acc: "compressToLimit ?img MAX_BYTES = Accepted 1000 60 480000"
    by (simp add: compressToLimit_def width_or_zero_def wc qualities_def MAX_BYTES_def)
  have mem: "(1000, 70) \<in> set (grid 1920)" "(1920, 35) \<in> set (grid 1920)"
    by (simp_all add: grid_def wc qualities_def)
  have pref: "preferred (1000, 70) (1000, 60)" "preferred (1920, 35) (1000, 60)"
    by (simp_all add: preferred_def)
  from compress_search_order[OF m, of MAX_BYTES] acc mem pref
  have "tried_too_big (\<lambda>w q. Some (w * q * 8)) MAX_BYTES (1000, 70)"
     "tried_too_big (\<lambda>w q. Some (w * q * 8)) MAX_BYTES (1920, 35)"
    by (simp_all add: width_or_zero_def)
  with m acc mem pref show ?thesis by blast
qed

subsection \<open>An image without a width\<close>

lemma width_candidates_zero: "width_candidates 0 = []"
  by (simp add: width_candidates_def first_occurrences_def)

lemma attempt_oversized:
  assumes "conn a = Response res" and "statusCode res = 200"
    and "\<not> header_exceeds (content_length res) MAX_DOWNLOAD_BYTES"
    and "sum_list (body res) \<le> MAX_DOWNLOAD_BYTES" and "sum_list (body res) > MAX_BYTES"
    and "\<not> write_fails a"
  shows "attempt a st =
    (case compressToLimit (content a) MAX_BYTES of
       Accepted w q n \<Rightarrow>
         (st\<lparr>files := (files st)(saved st + 1 \<mapsto> n), saved := saved st + 1\<rparr>, Stored)
     | Failed \<Rightarrow> (st\<lparr>files := (files st)(saved st + 1 := None)\<rparr>, Next)
     | Threw \<Rightarrow> (st\<lparr>files := (files st)(saved st + 1 \<mapsto> sum_list (body res))\<rparr>, Next))"
proof -
  have "downloadWithLimit (node a) (conn a) (write_fails a) MAX_DOWNLOAD_BYTES =
      \<lparr>outcome = Resolved (Ok (sum_list (body res))), dest_write = Some (sum_list (body res)),
       buffered = body res, stream = ReadToEnd\<rparr>"
    using downloadWithLimit_fits[OF assms(2,3,4), of "node a" "write_fails a"] assms(1,6)
    by simp
  then show ?thesis
    using assms(5) by (simp add: attempt_def Let_def split: compress_result.splits)
qed

text \<open>
  Claim C10. When the metadata of a file can be read and reports no width (absent, or 0),
  the width ladder is empty, so \<^verbatim>\<open>compressToLimit\<close> returns \<^verbatim>\<open>false\<close> whatever the encoder
  would answer, also an encoder that fits the budget at once or one that throws: no
  encoding is attempted. The caller reaches \<^verbatim>\<open>compressToLimit\<close> with a file it downloaded
  whose size is above \<^verbatim>\<open>MAX_BYTES\<close>, and then deletes the file and goes on to the next URL.
\<close>

theorem widthless_image_deleted:
  assumes "metadata im = Some mw" and "mw = None \<or> mw = Some 0"
  shows "width_candidates (width_or_zero mw) = [] \<and>
    (\<forall>enc. compressToLimit (im\<lparr>encode := enc\<rparr>) budget = Failed) \<and>
    (\<forall>a st res.
       content a = im \<and> conn a = Response res \<and> statusCode res = 200 \<and>
       \<not> header_exceeds (content_length res) MAX_DOWNLOAD_BYTES \<and>
       sum_list (body res) \<le> MAX_DOWNLOAD_BYTES \<and> sum_list (body res) > MAX_BYTES \<and>
       \<not> write_fails a \<longrightarrow>
       attempt a st = (st\<lparr>files := (files st)(saved st + 1 := None)\<rparr>, Next))"
proof -
  have w: "width_or_zero mw = 0"
    using assms(2) by (auto simp: width_or_zero_def)
  have none: "width_candidates (width_or_zero mw) = []"
    unfolding w by (rule width_candidates_zero)
  have failed: "compressToLimit (im\<lparr>encode := enc\<rparr>) budget = Failed" for enc budget
    using assms(1) by (simp add: compressToLimit_def none)
  from failed[of "encode im"] have self: "compressToLimit im budget = Failed" for budget
    by simp
  have "attempt a st = (st\<lparr>files := (files st)(saved st + 1 := None)\<rparr>, Next)"
    if "content a = im" "conn a = Response res" "statusCode res = 200"
       "\<not> header_exceeds (content_length res) MAX_DOWNLOAD_BYTES"
       "sum_list (body res) \<le> MAX_DOWNLOAD_BYTES" "sum_list (body res) > MAX_BYTES"
       "\<not> write_fails a" for a st res
    using attempt_oversized[OF that(2-7), of st] self[of MAX_BYTES] that(1) by simp
  with none failed show ?thesis by blast
qed

theorem widthless_image_deleted_witness:
  "metadata \<lparr>metadata = Some None, encode = (\<lambda>w q. Some 1000)\<rparr> = Some None \<and>
   compressToLimit \<lparr>metadata = Some None, encode = (\<lambda>w q. Some 1000)\<rparr> MAX_BYTES = Failed \<and>
   attempt
     \<lparr>node = \<lparr>end_after_destroy = False\<rparr>,
      conn = Response \<lparr>statusCode = 200, content_length = Missing, body = [600000]\<rparr>,
      write_fails = False,
      content = \<lparr>metadata = Some None, encode = (\<lambda>w q. Some 1000)\<rparr>\<rparr>
     \<lparr>files = Map.empty, saved = 0, stalled = False\<rparr> =
   (\<lparr>files = Map.empty, saved = 0, stalled = False\<rparr>, Next)"
proof -
  let ?im = "\<lparr>metadata = Some None, encode = (\<lambda>w q. Some (1000::nat))\<rparr>"
  let ?a = "\<lparr>node = \<lparr>end_after_destroy = False\<rparr>,
      conn = Response \<lparr>statusCode = 200, content_length = Missing, body = [600000]\<rparr>,
      write_fails = False, content = ?im\<rparr>"
  have m: "metadata ?im = Some None" by simp
  have ok: "content ?a = ?im \<and> conn ?a =
      Response \<lparr>statusCode = 200, content_length = Missing, body = [600000]\<rparr> \<and>
      statusCode \<lparr>statusCode = 200, content_length = Missing, body = [600000]\<rparr> = 200 \<and>
      \<not> header_exceeds
          (content_length \<lparr>statusCode = 200, content_length = Missing, body = [600000]\<rparr>)
          MAX_DOWNLOAD_BYTES \<and>
      sum_list (body \<lparr>statusCode = 200, content_length = Missing, body = [600000]\<rparr>)
        \<le> MAX_DOWNLOAD_BYTES \<and>
      sum_list (body \<lparr>statusCode = 200, content_length = Missing, body = [600000]\<rparr>)
        > MAX_BYTES \<and>
      \<not> write_fails ?a"
    by (simp add: header_exceeds_def MAX_DOWNLOAD_BYTES_def MAX_BYTES_def)
  have "None = None \<or> None = Some (0::nat)" by simp
  note t = widthless_image_deleted[OF m this, of MAX_BYTES]
  from t have "\<forall>enc. compressToLimit (?im\<lparr>encode := enc\<rparr>) MAX_BYTES = Failed"
    by blast
  then have "compressToLimit (?im\<lparr>encode := (\<lambda>w q. Some 1000)\<rparr>) MAX_BYTES = Failed"
    by (rule spec)
  then have "compressToLimit ?im MAX_BYTES = Failed"
    by simp
  moreover from t ok have "attempt ?a
      \<lparr>files = Map.empty, saved = 0, stalled = False\<rparr> =
     (\<lparr>files = Map.empty, saved = 0, stalled = False\<rparr>
        \<lparr>files := (files \<lparr>files = Map.empty, saved = 0, stalled = False\<rparr>)
           (saved \<lparr>files = Map.empty, saved = 0, stalled = False\<rparr> + 1 := None)\<rparr>, Next)"
    by blast
  ultimately show ?thesis by simp
qed

section \<open>Properties of the padding\<close>

lemma pad_loop_eq:
  "pad_loop original imgs =
     imgs @ map (\<lambda>p. original ! (p mod length original)) [length imgs..<TARGET_COUNT]"
proof (induction original imgs rule: pad_loop.induct)
  case (1 original imgs)
  show ?case
  proof (cases "length imgs < TARGET_COUNT")
    case True
    have "pad_loop original imgs =
        pad_loop original (imgs @ [original ! (length imgs mod length original)])"
      using True by (subst pad_loop.simps) simp
    also have "\<dots> = (imgs @ [original ! (length imgs mod length original)]) @
        map (\<lambda>p. original ! (p mod length original)) [Suc (length imgs)..<TARGET_COUNT]"
      using 1[OF True] by simp
    also have "\<dots> = imgs @ map (\<lambda>p. original ! (p mod length original))
        [length imgs..<TARGET_COUNT]"
      using True by (simp add: upt_conv_Cons)
    finally show ?thesis .
  next
    case False
    then show ?thesis by (subst pad_loop.simps) simp
  qed
qed

lemma pad_eq:
  "pad imgs = imgs @ map (\<lambda>p. imgs ! (p mod length imgs)) [length imgs..<TARGET_COUNT]"
  by (simp add: pad_def pad_loop_eq)

text \<open>
  Claim C5. A collected list that is not empty and shorter than \<^verbatim>\<open>TARGET_COUNT\<close> is padded to
  length \<^verbatim>\<open>TARGET_COUNT\<close> exactly; the original list is its beginning; the element at
  position \<open>k\<close> of the tail that was added is \<^verbatim>\<open>original[k mod original.length]\<close> (an index
  inside the original); and so is the element at every position \<open>p\<close> of the whole list.
\<close>

theorem padding_cycles:
  assumes "imgs \<noteq> []" and "length imgs < TARGET_COUNT"
  shows "length (pad imgs) = TARGET_COUNT \<and>
    take (length imgs) (pad imgs) = imgs \<and>
    (\<forall>k. k < TARGET_COUNT - length imgs \<longrightarrow>
       k mod length imgs < length imgs \<and>
       drop (length imgs) (pad imgs) ! k = imgs ! (k mod length imgs)) \<and>
    (\<forall>p. p < TARGET_COUNT \<longrightarrow> pad imgs ! p = imgs ! (p mod length imgs))"
proof -
  let ?n = "length imgs"
  let ?tail = "map (\<lambda>p. imgs ! (p mod ?n)) [?n..<TARGET_COUNT]"
  have eq: "pad imgs = imgs @ ?tail" by (rule pad_eq)
  have len: "length (pad imgs) = TARGET_COUNT"
    using assms(2) by (simp add: eq)
  have tk: "take ?n (pad imgs) = imgs" by (simp add: eq)
  have dr: "drop ?n (pad imgs) = ?tail" by (simp add: eq)
  have pos: "0 < ?n" using assms(1) by simp
  have tail: "k mod ?n < ?n \<and> drop ?n (pad imgs) ! k = imgs ! (k mod ?n)"
    if "k < TARGET_COUNT - ?n" for k
    using that pos unfolding dr by simp
  have whole: "pad imgs ! p = imgs ! (p mod ?n)" if "p < TARGET_COUNT" for p
  proof (cases "p < ?n")
    case True
    then show ?thesis by (simp add: eq nth_append)
  next
    case False
    then have "p - ?n < TARGET_COUNT - ?n" using that by simp
    with False have "pad imgs ! p = imgs ! ((?n + (p - ?n)) mod ?n)"
      by (simp add: eq nth_append)
    with False show ?thesis by simp
  qed
  from len tk tail whole show ?thesis by blast
qed

theorem padding_cycles_witness:
  "length (pad [''a'', ''b'', ''c'']) = TARGET_COUNT \<and>
   take 3 (pad [''a'', ''b'', ''c'']) = [''a'', ''b'', ''c''] \<and>
   drop 3 (pad [''a'', ''b'', ''c'']) ! 4 = ''b'' \<and>
   pad [''a'', ''b'', ''c''] ! 49 = ''b''"
proof -
  have h: "[''a'', ''b'', ''c''] \<noteq> []" "length [''a'', ''b'', ''c''] < TARGET_COUNT"
    by (simp_all add: TARGET_COUNT_def)
  note t = padding_cycles[OF h]
  have "(4::nat) < TARGET_COUNT - length [''a'', ''b'', ''c'']" "(49::nat) < TARGET_COUNT"
    by (simp_all add: TARGET_COUNT_def)
  with t have "length (pad [''a'', ''b'', ''c'']) = TARGET_COUNT"
    "take (length [''a'', ''b'', ''c'']) (pad [''a'', ''b'', ''c'']) = [''a'', ''b'', ''c'']"
    "drop (length [''a'', ''b'', ''c'']) (pad [''a'', ''b'', ''c'']) ! 4 =
       [''a'', ''b'', ''c''] ! (4 mod length [''a'', ''b'', ''c''])"
    "pad [''a'', ''b'', ''c''] ! 49 = [''a'', ''b'', ''c''] ! (49 mod length [''a'', ''b'', ''c''])"
    by blast+
  moreover have "length [''a'', ''b'', ''c''] = 3" "[''a'', ''b'', ''c''] ! (4 mod 3) = ''b''"
    "[''a'', ''b'', ''c''] ! (49 mod 3) = ''b''"
    by simp_all
  ultimately show ?thesis by metis
qed

section \<open>Properties of the collector\<close>

subsection \<open>The nested loops are one pass in day-major order\<close>

lemma collect_in_order_full:
  "length (images c) \<ge> TARGET_COUNT \<Longrightarrow> collect_in_order f c ps = c"
  by (cases ps) simp_all

lemma collect_in_order_append:
  "collect_in_order f c (ps @ qs) = collect_in_order f (collect_in_order f c ps) qs"
  by (induction ps arbitrary: c) (simp_all add: collect_in_order_full)

lemma markets_loop_in_order:
  "length (images c) < TARGET_COUNT \<Longrightarrow>
   markets_loop f idx c ms = collect_in_order f c (map (\<lambda>market. (idx, market)) ms)"
proof (induction ms arbitrary: c)
  case Nil
  then show ?case by simp
next
  case (Cons m ms)
  let ?c1 = "c\<lparr>requests := requests c @ [(idx, m)]\<rparr>"
  have c1: "length (images ?c1) < TARGET_COUNT" using Cons.prems by simp
  show ?case
  proof (cases "f idx BATCH_SIZE m")
    case FetchFailed
    then show ?thesis
      using Cons.prems Cons.IH[OF c1] by (simp add: visit_def)
  next
    case (Json p)
    show ?thesis
    proof (cases "extractImages p = []")
      case True
      then show ?thesis
        using Json Cons.prems Cons.IH[OF c1] by (simp add: visit_def)
    next
      case False
      let ?c2 = "items_loop ?c1 (extractImages p)"
      have v: "visit f c (idx, m) = ?c2"
        using Json by (simp add: visit_def)
      show ?thesis
      proof (cases "length (images ?c2) \<ge> TARGET_COUNT")
        case True
        then show ?thesis
          using Json False Cons.prems v by (simp add: collect_in_order_full)
      next
        case False2: False
        then have "length (images ?c2) < TARGET_COUNT" by simp
        from Cons.IH[OF this] show ?thesis
          using Json False False2 Cons.prems v by simp
      qed
    qed
  qed
qed

lemma days_loop_in_order:
  "days_loop f idx c =
   collect_in_order f c
     (concat (map (\<lambda>idx. map (\<lambda>market. (idx, market)) MARKETS) [idx..<MAX_FETCH_DAYS]))"
proof (induction f idx c rule: days_loop.induct)
  case (1 f idx c)
  show ?case
  proof (cases "length (images c) < TARGET_COUNT \<and> idx < MAX_FETCH_DAYS")
    case True
    then have "days_loop f idx c = days_loop f (idx + BATCH_SIZE) (markets_loop f idx c MARKETS)"
      by (subst days_loop.simps) simp
    also have "\<dots> = collect_in_order f (markets_loop f idx c MARKETS)
        (concat (map (\<lambda>idx. map (\<lambda>market. (idx, market)) MARKETS) [Suc idx..<MAX_FETCH_DAYS]))"
      using 1[OF True] by (simp add: BATCH_SIZE_def)
    also have "\<dots> = collect_in_order f c
        (map (\<lambda>market. (idx, market)) MARKETS @
         concat (map (\<lambda>idx. map (\<lambda>market. (idx, market)) MARKETS) [Suc idx..<MAX_FETCH_DAYS]))"
      using True by (simp add: collect_in_order_append markets_loop_in_order)
    also have "\<dots> = collect_in_order f c
        (concat (map (\<lambda>idx. map (\<lambda>market. (idx, market)) MARKETS) [idx..<MAX_FETCH_DAYS]))"
      using True by (simp add: upt_conv_Cons)
    finally show ?thesis .
  next
    case False
    have d: "days_loop f idx c = c"
      by (subst days_loop.simps) (rule if_not_P[OF False])
    show ?thesis
    proof (cases "length (images c) < TARGET_COUNT")
      case True
      with False have "[idx..<MAX_FETCH_DAYS] = []" by simp
      then have "concat (map (\<lambda>idx. map (\<lambda>market. (idx, market)) MARKETS)
          [idx..<MAX_FETCH_DAYS]) = []"
        by (simp only: list.map concat.simps)
      then show ?thesis unfolding d by (simp only: collect_in_order.simps)
    next
      case False
      then show ?thesis using d by (simp add: collect_in_order_full)
    qed
  qed
qed

lemma collect_in_order_day_major:
  "collect f = collect_in_order f \<lparr>images = [], seen = {}, requests = []\<rparr> day_major"
  by (simp add: collect_def days_loop_in_order day_major_def)

subsection \<open>What one pass keeps\<close>

lemma items_loop_requests: "requests (items_loop c items) = requests c"
  by (induction c items rule: items_loop.induct)
     (auto simp: Let_def add_candidate_def split: option.splits)

lemma items_loop_length:
  "length (images c) < TARGET_COUNT \<Longrightarrow> length (images (items_loop c items)) \<le> TARGET_COUNT"
  by (induction c items rule: items_loop.induct)
     (auto simp: Let_def add_candidate_def split: option.splits)

lemma visit_requests: "requests (visit f c p) = requests c @ [p]"
  by (simp add: visit_def Let_def items_loop_requests split: fetch_result.splits)

lemma visit_length:
  "length (images c) < TARGET_COUNT \<Longrightarrow> length (images (visit f c p)) \<le> TARGET_COUNT"
  by (simp add: visit_def Let_def items_loop_length split: fetch_result.splits)

lemma collect_in_order_requests:
  "\<exists>k\<le>length ps. requests (collect_in_order f c ps) = requests c @ take k ps \<and>
      (k < length ps \<longrightarrow> length (images (collect_in_order f c ps)) \<ge> TARGET_COUNT)"
proof (induction ps arbitrary: c)
  case Nil
  then show ?case by simp
next
  case (Cons p ps)
  show ?case
  proof (cases "length (images c) \<ge> TARGET_COUNT")
    case True
    then have "requests (collect_in_order f c (p # ps)) = requests c @ take 0 (p # ps)"
      "length (images (collect_in_order f c (p # ps))) \<ge> TARGET_COUNT"
      by simp_all
    then show ?thesis by (metis le0)
  next
    case False
    from Cons.IH[of "visit f c p"] obtain k where
      k: "k \<le> length ps"
         "requests (collect_in_order f (visit f c p) ps) = requests (visit f c p) @ take k ps"
         "k < length ps \<longrightarrow> length (images (collect_in_order f (visit f c p) ps)) \<ge> TARGET_COUNT"
      by blast
    have "Suc k \<le> length (p # ps)" using k(1) by simp
    moreover have "requests (collect_in_order f c (p # ps)) = requests c @ take (Suc k) (p # ps)"
      using False k(2) by (simp add: visit_requests)
    moreover have "Suc k < length (p # ps) \<longrightarrow>
        length (images (collect_in_order f c (p # ps))) \<ge> TARGET_COUNT"
      using False k(3) by simp
    ultimately show ?thesis by blast
  qed
qed

lemma collect_in_order_length:
  "length (images c) \<le> TARGET_COUNT \<Longrightarrow>
   length (images (collect_in_order f c ps)) \<le> TARGET_COUNT"
proof (induction ps arbitrary: c)
  case Nil
  then show ?case by simp
next
  case (Cons p ps)
  show ?case
  proof (cases "length (images c) \<ge> TARGET_COUNT")
    case True
    with Cons.prems show ?thesis by simp
  next
    case False
    then have "length (images (visit f c p)) \<le> TARGET_COUNT"
      by (simp add: visit_length)
    from Cons.IH[OF this] False show ?thesis by simp
  qed
qed

subsection \<open>Requests that bring nothing new\<close>

lemma items_loop_nothing_new:
  "\<forall>it\<in>set items. \<forall>cand. candidate_of it = Some cand \<longrightarrow> dedupeKey cand \<in> seen c \<Longrightarrow>
   items_loop c items = c"
  by (induction items) (auto split: option.splits)

lemma collect_in_order_nothing_new:
  assumes "\<forall>idx market pl it cand. f idx BATCH_SIZE market = Json pl \<longrightarrow>
      it \<in> set (extractImages pl) \<longrightarrow> candidate_of it = Some cand \<longrightarrow> dedupeKey cand \<in> seen c"
    and "length (images c) < TARGET_COUNT"
  shows "collect_in_order f c ps = c\<lparr>requests := requests c @ ps\<rparr>"
  using assms
proof (induction ps arbitrary: c)
  case Nil
  then show ?case by simp
next
  case (Cons p ps)
  let ?c1 = "c\<lparr>requests := requests c @ [p]\<rparr>"
  have "items_loop ?c1 (extractImages pl) = ?c1" if "f (fst p) BATCH_SIZE (snd p) = Json pl" for pl
    using Cons.prems(1) that by (intro items_loop_nothing_new) auto
  then have v: "visit f c p = ?c1"
    by (simp add: visit_def Let_def split: fetch_result.splits)
  have "collect_in_order f ?c1 ps = ?c1\<lparr>requests := requests ?c1 @ ps\<rparr>"
    using Cons.prems by (intro Cons.IH) simp_all
  then show ?case
    using Cons.prems(2) v by simp
qed

lemma day_major_start: "\<exists>rest. day_major = (0, ''zh-CN'') # (0, ''en-US'') # rest"
  by (simp add: day_major_def MAX_FETCH_DAYS_def MARKETS_def upt_conv_Cons)

lemma length_day_major: "length day_major = 256"
  by (simp add: day_major_def length_concat comp_def MARKETS_def MAX_FETCH_DAYS_def
      sum_list_triv)

lemma set_day_major: "set day_major = {p. fst p < MAX_FETCH_DAYS \<and> snd p \<in> set MARKETS}"
  by (auto simp: day_major_def)

text \<open>
  Claim C9, as the code has it. The loop over the markets is nested inside the loop over
  the day offsets: the collector is one pass over the requests in day-major order (for
  each day offset every market, before the next day offset) that sends a request only
  while fewer than \<^verbatim>\<open>TARGET_COUNT\<close> candidates are collected. So the requests sent are a
  beginning of that order, they break off before its end only when the target count is
  reached, and the list never grows beyond the target count.
\<close>

theorem collector_day_major:
  "collect f = collect_in_order f \<lparr>images = [], seen = {}, requests = []\<rparr> day_major \<and>
   (\<exists>k\<le>length day_major. requests (collect f) = take k day_major \<and>
      (k < length day_major \<longrightarrow> length (images (collect f)) = TARGET_COUNT)) \<and>
   length (images (collect f)) \<le> TARGET_COUNT"
proof -
  let ?init = "\<lparr>images = [], seen = {}, requests = []\<rparr>"
  have flat: "collect f = collect_in_order f ?init day_major"
    by (rule collect_in_order_day_major)
  have le: "length (images (collect f)) \<le> TARGET_COUNT"
    unfolding flat by (rule collect_in_order_length) simp
  from collect_in_order_requests[of day_major f ?init] obtain k where
    k: "k \<le> length day_major" "requests (collect f) = take k day_major"
       "k < length day_major \<longrightarrow> length (images (collect f)) \<ge> TARGET_COUNT"
    unfolding flat by auto
  from k(3) le have "k < length day_major \<longrightarrow> length (images (collect f)) = TARGET_COUNT"
    by auto
  with flat k(1,2) le show ?thesis by blast
qed

theorem collector_day_major_witness:
  "requests (collect (\<lambda>idx n market.
       Json (Object (Some (map (\<lambda>c. \<lparr>item_url = Some ''/'', item_urlbase = Some [c]\<rparr>)
         ''abcdefghijklmnopqrstuvwxyzABCDEFGHIJKLMNOPQRSTUVWXYZ''))))) = [(0, ''zh-CN'')] \<and>
   length (images (collect (\<lambda>idx n market.
       Json (Object (Some (map (\<lambda>c. \<lparr>item_url = Some ''/'', item_urlbase = Some [c]\<rparr>)
         ''abcdefghijklmnopqrstuvwxyzABCDEFGHIJKLMNOPQRSTUVWXYZ'')))))) = TARGET_COUNT"
proof -
  let ?f = "\<lambda>(idx::nat) (n::nat) (market::string).
       Json (Object (Some (map (\<lambda>c. \<lparr>item_url = Some ''/'', item_urlbase = Some [c]\<rparr>)
         ''abcdefghijklmnopqrstuvwxyzABCDEFGHIJKLMNOPQRSTUVWXYZ'')))"
  let ?init = "\<lparr>images = [], seen = {}, requests = []\<rparr>"
  note t = collector_day_major[of ?f]
  from day_major_start obtain rest where
    dm: "day_major = (0, ''zh-CN'') # (0, ''en-US'') # rest" by blast
  have full: "length (images (visit ?f ?init (0, ''zh-CN''))) = 50"
    by (simp add: visit_def extractImages_def Let_def dedupeKey_def TARGET_COUNT_def
        candidate_of_def add_candidate_def)
  have "collect ?f = collect_in_order ?f ?init day_major"
    using t by blast
  also have "\<dots> = visit ?f ?init (0, ''zh-CN'')"
    unfolding dm using full by (simp add: TARGET_COUNT_def)
  finally have c: "collect ?f = visit ?f ?init (0, ''zh-CN'')" .
  have req: "requests (collect ?f) = [(0, ''zh-CN'')]"
    unfolding c by (simp add: visit_requests)
  from t obtain k where
    k: "requests (collect ?f) = take k day_major"
       "k < length day_major \<longrightarrow> length (images (collect ?f)) = TARGET_COUNT"
    by blast
  from k(1) req have "length (take k day_major) = 1" by simp
  then have "k < length day_major" by (simp add: length_day_major)
  with k(2) req show ?thesis by blast
qed

text \<open>
  The claim as the spec words it has the loops the other way round: every day offset of
  one market before the next market. When every request fails, the second request is
  already for the next market, at day offset 0.
\<close>

theorem collector_locale_major_counterexample:
  "take 2 (requests (collect (\<lambda>idx n market. FetchFailed))) = [(0, ''zh-CN''), (0, ''en-US'')] \<and>
   take 2 locale_major = [(0, ''zh-CN''), (1, ''zh-CN'')] \<and>
   (0, ''en-US'') \<noteq> (1, ''zh-CN'')"
proof -
  let ?f = "\<lambda>(idx::nat) (n::nat) (market::string). FetchFailed"
  let ?init = "\<lparr>images = [], seen = {}, requests = []\<rparr>"
  have "collect ?f = collect_in_order ?f ?init day_major"
    by (rule collect_in_order_day_major)
  also have "\<dots> = ?init\<lparr>requests := requests ?init @ day_major\<rparr>"
    by (rule collect_in_order_nothing_new) (simp_all add: TARGET_COUNT_def)
  finally have r: "requests (collect ?f) = day_major" by simp
  obtain rest where dm: "day_major = (0, ''zh-CN'') # (0, ''en-US'') # rest"
    using day_major_start by blast
  have "take 2 day_major = [(0, ''zh-CN''), (0, ''en-US'')]"
    by (subst dm) (simp add: numeral_2_eq_2)
  then have "take 2 (requests (collect ?f)) = [(0, ''zh-CN''), (0, ''en-US'')]"
    unfolding r .
  moreover have "take 2 locale_major = [(0, ''zh-CN''), (1, ''zh-CN'')]"
    by (simp add: locale_major_def MAX_FETCH_DAYS_def MARKETS_def upt_conv_Cons)
  ultimately show ?thesis by simp
qed

subsection \<open>Deduplication\<close>

text \<open>One step of the loop over the items, by cases.\<close>

lemma items_loop_cases [case_names skip known last more]:
  obtains "candidate_of it = None" "items_loop c (it # rest) = items_loop c rest"
  | cand where "candidate_of it = Some cand" "dedupeKey cand \<in> seen c"
      "items_loop c (it # rest) = items_loop c rest"
  | cand where "candidate_of it = Some cand" "dedupeKey cand \<notin> seen c"
      "length (images (add_candidate c cand)) \<ge> TARGET_COUNT"
      "items_loop c (it # rest) = add_candidate c cand"
  | cand where "candidate_of it = Some cand" "dedupeKey cand \<notin> seen c"
      "length (images (add_candidate c cand)) < TARGET_COUNT"
      "items_loop c (it # rest) = items_loop (add_candidate c cand) rest"
proof (cases "candidate_of it")
  case None
  then show ?thesis using that(1) by simp
next
  case (Some cand)
  show ?thesis
  proof (cases "dedupeKey cand \<in> seen c")
    case True
    with Some show ?thesis using that(2) by simp
  next
    case False
    show ?thesis
    proof (cases "length (images (add_candidate c cand)) \<ge> TARGET_COUNT")
      case True
      with Some False show ?thesis using that(3)[of cand] by (simp add: Let_def)
    next
      case notfull: False
      with Some False show ?thesis using that(4)[of cand] by (simp add: Let_def)
    qed
  qed
qed

lemma candidate_of_url:
  "candidate_of it = Some cand \<Longrightarrow> prefix ''https://www.bing.com'' (url cand)"
  by (auto simp: candidate_of_def split: option.splits)

lemma add_candidate_simps:
  "seen (add_candidate c cand) = insert (dedupeKey cand) (seen c)"
  "images (add_candidate c cand) = images c @ [cand]"
  "requests (add_candidate c cand) = requests c"
  by (simp_all add: add_candidate_def)

lemma items_loop_keys:
  "seen c = dedupeKey ` set (images c) \<Longrightarrow> distinct (map dedupeKey (images c)) \<Longrightarrow>
   seen (items_loop c items) = dedupeKey ` set (images (items_loop c items)) \<and>
   distinct (map dedupeKey (images (items_loop c items)))"
proof (induction items arbitrary: c)
  case Nil
  then show ?case by simp
next
  case (Cons it rest)
  show ?case
  proof (cases it c rest rule: items_loop_cases)
    case skip
    with Cons show ?thesis by simp
  next
    case (known cand)
    with Cons show ?thesis by simp
  next
    case (last cand)
    with Cons.prems show ?thesis by (simp add: add_candidate_simps)
  next
    case (more cand)
    have "seen (add_candidate c cand) = dedupeKey ` set (images (add_candidate c cand))"
      "distinct (map dedupeKey (images (add_candidate c cand)))"
      using Cons.prems more(2) by (simp_all add: add_candidate_simps)
    from Cons.IH[OF this] more(4) show ?thesis by simp
  qed
qed

lemma items_loop_urls:
  "\<forall>cand\<in>set (images c). prefix ''https://www.bing.com'' (url cand) \<Longrightarrow>
   \<forall>cand\<in>set (images (items_loop c items)). prefix ''https://www.bing.com'' (url cand)"
proof (induction items arbitrary: c)
  case Nil
  then show ?case by simp
next
  case (Cons it rest)
  show ?case
  proof (cases it c rest rule: items_loop_cases)
    case skip
    with Cons show ?thesis by simp
  next
    case (known cand)
    with Cons show ?thesis by simp
  next
    case (last cand)
    with Cons.prems candidate_of_url[OF last(1)] show ?thesis
      by (simp add: add_candidate_simps)
  next
    case (more cand)
    have "\<forall>x\<in>set (images (add_candidate c cand)). prefix ''https://www.bing.com'' (url x)"
      using Cons.prems candidate_of_url[OF more(1)] by (simp add: add_candidate_simps)
    from Cons.IH[OF this] more(4) show ?thesis by simp
  qed
qed

lemma items_loop_mono:
  "seen c \<subseteq> seen (items_loop c items) \<and>
   length (images c) \<le> length (images (items_loop c items))"
proof (induction items arbitrary: c)
  case Nil
  then show ?case by simp
next
  case (Cons it rest)
  show ?case
  proof (cases it c rest rule: items_loop_cases)
    case skip
    with Cons show ?thesis by simp
  next
    case (known cand)
    with Cons show ?thesis by simp
  next
    case (last cand)
    then show ?thesis by (auto simp: add_candidate_simps)
  next
    case (more cand)
    from Cons.IH[of "add_candidate c cand"] more(4) show ?thesis
      by (auto simp: add_candidate_simps)
  qed
qed

lemma items_loop_covers:
  "length (images (items_loop c items)) < TARGET_COUNT \<Longrightarrow> it \<in> set items \<Longrightarrow>
   candidate_of it = Some cand \<Longrightarrow> dedupeKey cand \<in> seen (items_loop c items)"
proof (induction items arbitrary: c)
  case Nil
  then show ?case by simp
next
  case (Cons it' rest)
  show ?case
  proof (cases it' c rest rule: items_loop_cases)
    case skip
    with Cons.prems have "it \<in> set rest" by auto
    with Cons.IH[of c] Cons.prems skip show ?thesis by simp
  next
    case (known cand')
    show ?thesis
    proof (cases "it = it'")
      case True
      with known Cons.prems(3) have "dedupeKey cand \<in> seen c" by simp
      then show ?thesis using items_loop_mono[of c "it' # rest"] by blast
    next
      case False
      with Cons.prems have "it \<in> set rest" by simp
      with Cons.IH[of c] Cons.prems known show ?thesis by simp
    qed
  next
    case (last cand')
    with Cons.prems(1) show ?thesis by simp
  next
    case (more cand')
    show ?thesis
    proof (cases "it = it'")
      case True
      with more Cons.prems(3) have "dedupeKey cand \<in> seen (add_candidate c cand')"
        by (simp add: add_candidate_simps)
      then show ?thesis
        unfolding more(4) using items_loop_mono[of "add_candidate c cand'" rest] by blast
    next
      case False
      with Cons.prems have "it \<in> set rest" by simp
      with Cons.IH[of "add_candidate c cand'"] Cons.prems more show ?thesis by simp
    qed
  qed
qed

lemma visit_cases [case_names failed json]:
  obtains "f (fst p) BATCH_SIZE (snd p) = FetchFailed"
      "visit f c p = c\<lparr>requests := requests c @ [p]\<rparr>"
  | pl where "f (fst p) BATCH_SIZE (snd p) = Json pl"
      "visit f c p = items_loop (c\<lparr>requests := requests c @ [p]\<rparr>) (extractImages pl)"
  by (cases "f (fst p) BATCH_SIZE (snd p)") (simp_all add: visit_def Let_def)

lemma visit_keys:
  assumes "seen c = dedupeKey ` set (images c)" and "distinct (map dedupeKey (images c))"
  shows "seen (visit f c p) = dedupeKey ` set (images (visit f c p)) \<and>
    distinct (map dedupeKey (images (visit f c p)))"
proof (cases f p c rule: visit_cases)
  case failed
  with assms show ?thesis by simp
next
  case (json pl)
  show ?thesis
    unfolding json(2) using assms by (intro items_loop_keys) simp_all
qed

lemma visit_urls:
  assumes "\<forall>cand\<in>set (images c). prefix ''https://www.bing.com'' (url cand)"
  shows "\<forall>cand\<in>set (images (visit f c p)). prefix ''https://www.bing.com'' (url cand)"
proof (cases f p c rule: visit_cases)
  case failed
  with assms show ?thesis by simp
next
  case (json pl)
  show ?thesis
    unfolding json(2) using assms by (intro items_loop_urls) simp
qed

lemma visit_mono:
  "seen c \<subseteq> seen (visit f c p) \<and> length (images c) \<le> length (images (visit f c p))"
proof (cases f p c rule: visit_cases)
  case failed
  then show ?thesis by simp
next
  case (json pl)
  show ?thesis
    unfolding json(2)
    using items_loop_mono[of "c\<lparr>requests := requests c @ [p]\<rparr>" "extractImages pl"] by simp
qed

lemma visit_covers:
  assumes "length (images (visit f c p)) < TARGET_COUNT"
    and "f (fst p) BATCH_SIZE (snd p) = Json pl" and "it \<in> set (extractImages pl)"
    and "candidate_of it = Some cand"
  shows "dedupeKey cand \<in> seen (visit f c p)"
proof -
  have v: "visit f c p = items_loop (c\<lparr>requests := requests c @ [p]\<rparr>) (extractImages pl)"
    using assms(2) by (simp add: visit_def Let_def)
  show ?thesis
    using assms(1,3,4) unfolding v by (rule items_loop_covers)
qed

lemma collect_in_order_keys:
  "seen c = dedupeKey ` set (images c) \<Longrightarrow> distinct (map dedupeKey (images c)) \<Longrightarrow>
   seen (collect_in_order f c ps) = dedupeKey ` set (images (collect_in_order f c ps)) \<and>
   distinct (map dedupeKey (images (collect_in_order f c ps)))"
proof (induction ps arbitrary: c)
  case Nil
  then show ?case by simp
next
  case (Cons p ps)
  from visit_keys[OF Cons.prems, of f p] Cons.IH[of "visit f c p"] Cons.prems
  show ?case by simp
qed

lemma collect_in_order_urls:
  "\<forall>cand\<in>set (images c). prefix ''https://www.bing.com'' (url cand) \<Longrightarrow>
   \<forall>cand\<in>set (images (collect_in_order f c ps)). prefix ''https://www.bing.com'' (url cand)"
proof (induction ps arbitrary: c)
  case Nil
  then show ?case by simp
next
  case (Cons p ps)
  from visit_urls[OF Cons.prems, of f p] Cons.IH[of "visit f c p"] Cons.prems
  show ?case by simp
qed

lemma collect_in_order_mono:
  "seen c \<subseteq> seen (collect_in_order f c ps) \<and>
   length (images c) \<le> length (images (collect_in_order f c ps))"
proof (induction ps arbitrary: c)
  case Nil
  then show ?case by simp
next
  case (Cons p ps)
  from visit_mono[of c f p] Cons.IH[of "visit f c p"]
  show ?case by auto
qed

lemma collect_in_order_covers:
  "length (images (collect_in_order f c ps)) < TARGET_COUNT \<Longrightarrow> p \<in> set ps \<Longrightarrow>
   f (fst p) BATCH_SIZE (snd p) = Json pl \<Longrightarrow> it \<in> set (extractImages pl) \<Longrightarrow>
   candidate_of it = Some cand \<Longrightarrow> dedupeKey cand \<in> seen (collect_in_order f c ps)"
proof (induction ps arbitrary: c)
  case Nil
  then show ?case by simp
next
  case (Cons p' ps)
  have small: "length (images c) < TARGET_COUNT"
    using Cons.prems(1) collect_in_order_mono[of c f "p' # ps"] by simp
  then have r: "collect_in_order f c (p' # ps) = collect_in_order f (visit f c p') ps"
    by simp
  show ?case
  proof (cases "p = p'")
    case True
    have "length (images (visit f c p')) < TARGET_COUNT"
      using Cons.prems(1) collect_in_order_mono[of "visit f c p'" f ps] unfolding r by simp
    from visit_covers[OF this] Cons.prems(3,4,5) True
    have "dedupeKey cand \<in> seen (visit f c p')" by simp
    then show ?thesis
      unfolding r using collect_in_order_mono[of "visit f c p'" f ps] by blast
  next
    case False
    with Cons.prems(2) have "p \<in> set ps" by simp
    from Cons.IH[OF _ this Cons.prems(3,4,5), of "visit f c p'"] Cons.prems(1)
    show ?thesis unfolding r by simp
  qed
qed

lemma filter_at_most_one:
  "distinct (map g xs) \<Longrightarrow> \<forall>x. P x \<longrightarrow> g x = k \<Longrightarrow> length (filter P xs) \<le> 1"
proof (induction xs)
  case Nil
  then show ?case by simp
next
  case (Cons x xs)
  show ?case
  proof (cases "P x")
    case True
    with Cons.prems have "\<forall>y\<in>set xs. \<not> P y" by force
    then have "filter P xs = []" by (simp add: filter_empty_conv)
    with True show ?thesis by simp
  next
    case False
    with Cons show ?thesis by simp
  qed
qed

text \<open>
  Claim C4, as the code has it. The dedupe keys of the collected list (the urlbase when
  present, the full url otherwise) are pairwise distinct, so a urlbase is carried by at
  most one candidate, however often the endpoint returned it. One candidate carries it
  when some item with that urlbase and a usable url was returned for a request of the
  search space, the collector ended below \<^verbatim>\<open>TARGET_COUNT\<close> (so that it read every item), and
  the urlbase is not itself of the form of a full url, which is the key of an item
  without urlbase.
\<close>

theorem dedupe_by_key:
  "distinct (map dedupeKey (images (collect f))) \<and>
   length (filter (\<lambda>c. urlBase c = Some b) (images (collect f))) \<le> 1 \<and>
   (\<forall>idx market pl it cand.
      idx < MAX_FETCH_DAYS \<and> market \<in> set MARKETS \<and> f idx BATCH_SIZE market = Json pl \<and>
      it \<in> set (extractImages pl) \<and> candidate_of it = Some cand \<and> urlBase cand = Some b \<and>
      \<not> prefix ''https://www.bing.com'' b \<and> length (images (collect f)) < TARGET_COUNT \<longrightarrow>
      length (filter (\<lambda>c. urlBase c = Some b) (images (collect f))) = 1)"
proof -
  let ?init = "\<lparr>images = [], seen = {}, requests = []\<rparr>"
  have flat: "collect f = collect_in_order f ?init day_major"
    by (rule collect_in_order_day_major)
  have keys: "seen (collect f) = dedupeKey ` set (images (collect f))"
    and dist: "distinct (map dedupeKey (images (collect f)))"
    unfolding flat using collect_in_order_keys[of ?init f day_major] by simp_all
  have urls: "\<forall>cand\<in>set (images (collect f)). prefix ''https://www.bing.com'' (url cand)"
    unfolding flat by (rule collect_in_order_urls) simp
  have most: "length (filter (\<lambda>c. urlBase c = Some b) (images (collect f))) \<le> 1"
    using dist by (rule filter_at_most_one[where k = b]) (simp add: dedupeKey_def)
  have one: "length (filter (\<lambda>c. urlBase c = Some b) (images (collect f))) = 1"
    if h: "idx < MAX_FETCH_DAYS" "market \<in> set MARKETS" "f idx BATCH_SIZE market = Json pl"
      "it \<in> set (extractImages pl)" "candidate_of it = Some cand" "urlBase cand = Some b"
      "\<not> prefix ''https://www.bing.com'' b" "length (images (collect f)) < TARGET_COUNT"
    for idx market pl it cand
  proof -
    have "(idx, market) \<in> set day_major"
      using h(1,2) by (simp add: set_day_major)
    from collect_in_order_covers[OF _ this, of f ?init pl it cand] h(3,4,5,8)
    have "dedupeKey cand \<in> seen (collect f)"
      unfolding flat by simp
    then have "b \<in> dedupeKey ` set (images (collect f))"
      using h(6) keys by (simp add: dedupeKey_def)
    then obtain c where c: "c \<in> set (images (collect f))" "dedupeKey c = b"
      by auto
    have "urlBase c = Some b"
    proof (cases "urlBase c")
      case None
      with c(2) have "url c = b" by (simp add: dedupeKey_def)
      with urls c(1) h(7) show ?thesis by blast
    next
      case (Some b')
      with c(2) show ?thesis by (simp add: dedupeKey_def)
    qed
    with c(1) have "filter (\<lambda>c. urlBase c = Some b) (images (collect f)) \<noteq> []"
      by (auto simp: filter_empty_conv)
    then have "length (filter (\<lambda>c. urlBase c = Some b) (images (collect f))) \<ge> 1"
      by (simp add: Suc_le_eq)
    with most show ?thesis by simp
  qed
  from dist most one show ?thesis by blast
qed

theorem dedupe_by_key_witness:
  "images (collect (\<lambda>idx n market. Json (Object (Some
      [\<lparr>item_url = Some ''/a.jpg'', item_urlbase = Some ''/a''\<rparr>,
       \<lparr>item_url = Some ''/b.jpg'', item_urlbase = Some ''/a''\<rparr>])))) =
     [\<lparr>url = ''https://www.bing.com/a.jpg'', urlBase = Some ''/a''\<rparr>] \<and>
   length (filter (\<lambda>c. urlBase c = Some ''/a'')
     (images (collect (\<lambda>idx n market. Json (Object (Some
      [\<lparr>item_url = Some ''/a.jpg'', item_urlbase = Some ''/a''\<rparr>,
       \<lparr>item_url = Some ''/b.jpg'', item_urlbase = Some ''/a''\<rparr>])))))) = 1"
proof -
  let ?pl = "Object (Some
      [\<lparr>item_url = Some ''/a.jpg'', item_urlbase = Some ''/a''\<rparr>,
       \<lparr>item_url = Some ''/b.jpg'', item_urlbase = Some ''/a''\<rparr>])"
  let ?f = "\<lambda>(idx::nat) (n::nat) (market::string). Json ?pl"
  let ?init = "\<lparr>images = [], seen = {}, requests = []\<rparr>"
  let ?cand = "\<lparr>url = ''https://www.bing.com/a.jpg'', urlBase = Some ''/a''\<rparr>"
  let ?c1 = "\<lparr>images = [?cand], seen = {''/a''}, requests = [(0, ''zh-CN'')]\<rparr>"
  obtain rest where dm: "day_major = (0, ''zh-CN'') # (0, ''en-US'') # rest"
    using day_major_start by blast
  have v: "visit ?f ?init (0, ''zh-CN'') = ?c1"
    by (simp add: visit_def extractImages_def Let_def dedupeKey_def TARGET_COUNT_def
        candidate_of_def add_candidate_def)
  have "collect ?f = collect_in_order ?f ?init day_major"
    by (rule collect_in_order_day_major)
  also have "\<dots> = collect_in_order ?f ?c1 ((0, ''en-US'') # rest)"
    unfolding dm using v by (simp add: TARGET_COUNT_def)
  also have "\<dots> = ?c1\<lparr>requests := requests ?c1 @ (0, ''en-US'') # rest\<rparr>"
    by (rule collect_in_order_nothing_new)
       (auto simp: extractImages_def candidate_of_def dedupeKey_def TARGET_COUNT_def)
  finally have imgs: "images (collect ?f) = [?cand]" by simp
  have h: "0 < MAX_FETCH_DAYS \<and> ''zh-CN'' \<in> set MARKETS \<and> ?f 0 BATCH_SIZE ''zh-CN'' = Json ?pl \<and>
      \<lparr>item_url = Some ''/a.jpg'', item_urlbase = Some ''/a''\<rparr> \<in> set (extractImages ?pl) \<and>
      candidate_of \<lparr>item_url = Some ''/a.jpg'', item_urlbase = Some ''/a''\<rparr> = Some ?cand \<and>
      urlBase ?cand = Some ''/a'' \<and> \<not> prefix ''https://www.bing.com'' ''/a'' \<and>
      length (images (collect ?f)) < TARGET_COUNT"
    unfolding imgs
    by (simp add: MAX_FETCH_DAYS_def MARKETS_def extractImages_def candidate_of_def
        TARGET_COUNT_def)
  from dedupe_by_key[of ?f "''/a''"] h
  have "length (filter (\<lambda>c. urlBase c = Some ''/a'') (images (collect ?f))) = 1"
    by blast
  with imgs show ?thesis by simp
qed

text \<open>
  The claim as the spec words it, exactly once, fails when the items that carry the
  urlbase have no usable \<^verbatim>\<open>url\<close>: they are skipped before the key is looked at, and the
  collected list holds no candidate with that urlbase.
\<close>

theorem dedupe_skipped_items_counterexample:
  "map item_urlbase (extractImages (Object (Some
      [\<lparr>item_url = None, item_urlbase = Some ''/th?id=OHR.A''\<rparr>,
       \<lparr>item_url = None, item_urlbase = Some ''/th?id=OHR.A''\<rparr>]))) =
     [Some ''/th?id=OHR.A'', Some ''/th?id=OHR.A''] \<and>
   length (filter (\<lambda>c. urlBase c = Some ''/th?id=OHR.A'')
     (images (collect (\<lambda>idx n market. Json (Object (Some
      [\<lparr>item_url = None, item_urlbase = Some ''/th?id=OHR.A''\<rparr>,
       \<lparr>item_url = None, item_urlbase = Some ''/th?id=OHR.A''\<rparr>])))))) = 0"
proof -
  let ?pl = "Object (Some
      [\<lparr>item_url = None, item_urlbase = Some ''/th?id=OHR.A''\<rparr>,
       \<lparr>item_url = None, item_urlbase = Some ''/th?id=OHR.A''\<rparr>])"
  let ?f = "\<lambda>(idx::nat) (n::nat) (market::string). Json ?pl"
  let ?init = "\<lparr>images = [], seen = {}, requests = []\<rparr>"
  have "collect ?f = collect_in_order ?f ?init day_major"
    by (rule collect_in_order_day_major)
  also have "\<dots> = ?init\<lparr>requests := requests ?init @ day_major\<rparr>"
    by (rule collect_in_order_nothing_new)
       (auto simp: extractImages_def candidate_of_def TARGET_COUNT_def)
  finally have "images (collect ?f) = []" by simp
  then show ?thesis by (simp add: extractImages_def)
qed

section \<open>Properties of the download loop\<close>

subsection \<open>One download, by cases\<close>

lemma downloadWithLimit_write:
  "dest_write (downloadWithLimit rt get wfail m) =
     (case outcome (downloadWithLimit rt get wfail m) of
        Resolved (Ok n) \<Rightarrow> Some n
      | _ \<Rightarrow> None)"
proof (cases get)
  case NetworkError
  then show ?thesis by (simp add: downloadWithLimit_def)
next
  case (Response res)
  show ?thesis
  proof (cases "statusCode res = 200 \<and> \<not> header_exceeds (content_length res) m")
    case False
    with Response show ?thesis by (auto simp: downloadWithLimit_def)
  next
    case True
    show ?thesis
    proof (cases "sum_list (body res) \<le> m")
      case fits: True
      from downloadWithLimit_fits[OF _ _ fits, of rt wfail] True Response
      show ?thesis by simp
    next
      case False
      then have "sum_list (body res) > m" by simp
      from downloadWithLimit_overflow[OF _ _ this, of rt wfail] True Response
      show ?thesis by auto
    qed
  qed
qed

lemma downloadWithLimit_pending:
  "outcome (downloadWithLimit rt get wfail m) = Pending \<Longrightarrow> \<not> end_after_destroy rt"
  by (auto simp: downloadWithLimit_def on_end_def Let_def split: http_get.splits if_splits)

lemma compressToLimit_Accepted: "compressToLimit im m = Accepted w q n \<Longrightarrow> n \<le> m"
proof (cases "metadata im")
  case None
  then show "compressToLimit im m = Accepted w q n \<Longrightarrow> n \<le> m"
    by (simp add: compressToLimit_def)
next
  case (Some mw)
  assume "compressToLimit im m = Accepted w q n"
  then have "first_fit (encode im) m (grid (width_or_zero mw)) = Accepted w q n"
    using Some by (simp add: compressToLimit_def grid_def try_widths_first_fit)
  from first_fit_Accepted[OF this] show "n \<le> m" by blast
qed

text \<open>The four ways one pass through the body of the URL loop can end.\<close>

lemma attempt_cases [case_names stall skipped stale stored]:
  obtains "\<not> end_after_destroy (node a)" "attempt a st = (st\<lparr>stalled := True\<rparr>, Stall)"
  | "attempt a st = (st\<lparr>files := (files st)(saved st + 1 := None)\<rparr>, Next) \<or>
     attempt a st = (st, Next)"
  | n where "n > MAX_BYTES" "compressToLimit (content a) MAX_BYTES = Threw"
      "attempt a st = (st\<lparr>files := (files st)(saved st + 1 \<mapsto> n)\<rparr>, Next)"
  | n where "n \<le> MAX_BYTES"
      "attempt a st =
        (st\<lparr>files := (files st)(saved st + 1 \<mapsto> n), saved := saved st + 1\<rparr>, Stored)"
proof -
  define d where
    "d = downloadWithLimit (node a) (conn a) (write_fails a) MAX_DOWNLOAD_BYTES"
  have w: "dest_write d = (case outcome d of Resolved (Ok n) \<Rightarrow> Some n | _ \<Rightarrow> None)"
    unfolding d_def by (rule downloadWithLimit_write)
  show ?thesis
  proof (cases "outcome d")
    case Pending
    then have "\<not> end_after_destroy (node a)"
      unfolding d_def by (rule downloadWithLimit_pending)
    moreover have "attempt a st = (st\<lparr>stalled := True\<rparr>, Stall)"
      using Pending w by (simp add: attempt_def Let_def flip: d_def)
    ultimately show ?thesis by (rule that(1))
  next
    case Rejected
    then have "attempt a st = (st, Next)"
      using w by (simp add: attempt_def Let_def flip: d_def)
    then show ?thesis using that(2) by blast
  next
    case (Resolved r)
    show ?thesis
    proof (cases r)
      case TooLarge
      with Resolved w have "attempt a st = (st, Next)"
        by (simp add: attempt_def Let_def flip: d_def)
      then show ?thesis using that(2) by blast
    next
      case (BadStatus code)
      with Resolved w have "attempt a st = (st, Next)"
        by (simp add: attempt_def Let_def flip: d_def)
      then show ?thesis using that(2) by blast
    next
      case (Ok n)
      with Resolved w have dw: "dest_write d = Some n" by simp
      show ?thesis
      proof (cases "n > MAX_BYTES")
        case False
        then have "attempt a st =
            (st\<lparr>files := (files st)(saved st + 1 \<mapsto> n), saved := saved st + 1\<rparr>, Stored)"
          using Resolved Ok dw by (simp add: attempt_def Let_def flip: d_def)
        with False show ?thesis using that(4)[of n] by simp
      next
        case True
        show ?thesis
        proof (cases "compressToLimit (content a) MAX_BYTES")
          case (Accepted w' q k)
          then have "attempt a st =
            (st\<lparr>files := (files st)(saved st + 1 \<mapsto> k), saved := saved st + 1\<rparr>, Stored)"
            using True Resolved Ok dw by (simp add: attempt_def Let_def flip: d_def)
          moreover have "k \<le> MAX_BYTES"
            using Accepted by (rule compressToLimit_Accepted)
          ultimately show ?thesis using that(4)[of k] by simp
        next
          case Failed
          then have "attempt a st =
              (st\<lparr>files := (files st)(saved st + 1 := None)\<rparr>, Next)"
            using True Resolved Ok dw by (simp add: attempt_def Let_def flip: d_def)
          then show ?thesis using that(2) by blast
        next
          case Threw
          then have "attempt a st =
              (st\<lparr>files := (files st)(saved st + 1 \<mapsto> n)\<rparr>, Next)"
            using True Resolved Ok dw by (simp add: attempt_def Let_def flip: d_def)
          with True Threw show ?thesis using that(3)[of n] by simp
        qed
      qed
    qed
  qed
qed

subsection \<open>The numbering of the files\<close>

lemma interval_facts:
  "insert (Suc s) {Suc 0..s} = {Suc 0..Suc s}"
  "insert (Suc s) {Suc 0..Suc s} = {Suc 0..Suc s}"
  "{Suc 0..s} - {Suc s} = {Suc 0..s}"
  "{Suc 0..Suc s} - {Suc s} = {Suc 0..s}"
  by auto

lemma numbered_write:
  "numbered st \<Longrightarrow> saved st < TARGET_COUNT \<Longrightarrow>
   numbered (st\<lparr>files := (files st)(saved st + 1 \<mapsto> n)\<rparr>)"
  unfolding numbered_def by (elim conjE disjE) (simp_all add: interval_facts)

lemma numbered_unlink:
  "numbered st \<Longrightarrow> numbered (st\<lparr>files := (files st)(saved st + 1 := None)\<rparr>)"
  unfolding numbered_def by (elim conjE disjE) (simp_all add: interval_facts)

lemma numbered_store:
  "numbered st \<Longrightarrow> saved st < TARGET_COUNT \<Longrightarrow>
   numbered (st\<lparr>files := (files st)(saved st + 1 \<mapsto> n), saved := saved st + 1\<rparr>)"
  unfolding numbered_def by (elim conjE disjE) (simp_all add: interval_facts)

lemma attempt_numbered:
  assumes "numbered st" and "saved st < TARGET_COUNT"
  shows "numbered (fst (attempt a st)) \<and>
    (snd (attempt a st) \<noteq> Stored \<longrightarrow> saved (fst (attempt a st)) = saved st)"
proof (cases a st rule: attempt_cases)
  case stall
  with assms(1) show ?thesis by (simp add: numbered_def)
next
  case skipped
  with assms(1) numbered_unlink[OF assms(1)] show ?thesis by auto
next
  case (stale n)
  with numbered_write[OF assms, of n] show ?thesis by simp
next
  case (stored n)
  with numbered_store[OF assms, of n] show ?thesis by simp
qed

lemma try_candidates_numbered:
  "numbered st \<Longrightarrow> saved st < TARGET_COUNT \<Longrightarrow> numbered (fst (try_candidates env st us))"
proof (induction us arbitrary: st)
  case Nil
  then show ?case by simp
next
  case (Cons ju us)
  obtain j u where ju: "ju = (j, u)" by (cases ju)
  obtain st' s where a: "attempt (env j u) st = (st', s)" by (cases "attempt (env j u) st")
  from attempt_numbered[OF Cons.prems, of "env j u"] a
  have n: "numbered st'" and same: "s \<noteq> Stored \<longrightarrow> saved st' = saved st" by simp_all
  show ?case
  proof (cases s)
    case Stored
    with a n ju show ?thesis by simp
  next
    case Next
    with same Cons.prems(2) have "saved st' < TARGET_COUNT" by simp
    from Cons.IH[OF n this] a Next ju show ?thesis by simp
  next
    case Stall
    with a n ju show ?thesis by simp
  qed
qed

lemma download_loop_numbered:
  "numbered st \<Longrightarrow> numbered (download_loop env i st cs)"
proof (induction cs arbitrary: st i)
  case Nil
  then show ?case by simp
next
  case (Cons c cs)
  show ?case
  proof (cases "saved st < TARGET_COUNT \<and> \<not> stalled st")
    case True
    then have "numbered (fst (try_candidates (env i) st (url_ladder c)))"
      using Cons.prems by (simp add: try_candidates_numbered)
    from Cons.IH[OF this] True show ?thesis by simp
  next
    case False
    with Cons.prems show ?thesis by auto
  qed
qed

subsection \<open>The size of the files when no encoding throws\<close>

lemma within_budget_next_free: "within_budget st \<Longrightarrow> files st (saved st + 1) = None"
proof -
  assume "within_budget st"
  then have "saved st + 1 \<notin> dom (files st)" by (simp add: within_budget_def)
  then show ?thesis by (simp add: domIff)
qed

lemma attempt_within_budget:
  assumes "within_budget st" and "compressToLimit (content a) MAX_BYTES \<noteq> Threw"
  shows "within_budget (fst (attempt a st))"
proof (cases a st rule: attempt_cases)
  case stall
  with assms show ?thesis by (simp add: within_budget_def)
next
  case skipped
  have "(files st)(saved st + 1 := None) = files st"
    using within_budget_next_free[OF assms(1)] by (rule fun_upd_idem)
  with skipped assms show ?thesis by auto
next
  case (stale n)
  with assms show ?thesis by simp
next
  case (stored n)
  have "ran ((files st)(saved st + 1 \<mapsto> n)) = insert n (ran (files st))"
    using within_budget_next_free[OF assms(1)] by simp
  with stored assms(1) show ?thesis
    by (simp add: within_budget_def interval_facts)
qed

lemma try_candidates_within_budget:
  "within_budget st \<Longrightarrow> \<forall>j u. compressToLimit (content (env j u)) MAX_BYTES \<noteq> Threw \<Longrightarrow>
   within_budget (fst (try_candidates env st us))"
proof (induction us arbitrary: st)
  case Nil
  then show ?case by simp
next
  case (Cons ju us)
  obtain j u where ju: "ju = (j, u)" by (cases ju)
  obtain st' s where a: "attempt (env j u) st = (st', s)" by (cases "attempt (env j u) st")
  from attempt_within_budget[OF Cons.prems(1), of "env j u"] Cons.prems(2) a
  have w: "within_budget st'" by simp
  from Cons.IH[OF w Cons.prems(2)] a w ju show ?case
    by (cases s) simp_all
qed

lemma download_loop_within_budget:
  "within_budget st \<Longrightarrow> \<forall>i j u. compressToLimit (content (env i j u)) MAX_BYTES \<noteq> Threw \<Longrightarrow>
   within_budget (download_loop env i st cs)"
proof (induction cs arbitrary: st i)
  case Nil
  then show ?case by simp
next
  case (Cons c cs)
  have "within_budget (fst (try_candidates (env i) st (url_ladder c)))"
    using Cons.prems by (intro try_candidates_within_budget) simp_all
  from Cons.IH[OF this Cons.prems(2)] Cons.prems(1) show ?case by simp
qed

subsection \<open>A run stalls only on a runtime that drops the end of a destroyed response\<close>




subsection \<open>Runs on small inputs\<close>

lemma attempt_bad_status:
  "conn a = Response res \<Longrightarrow> statusCode res \<noteq> 200 \<Longrightarrow> attempt a st = (st, Next)"
  by (simp add: attempt_def downloadWithLimit_def Let_def)

lemma attempt_small:
  assumes "conn a = Response res" and "statusCode res = 200"
    and "\<not> header_exceeds (content_length res) MAX_DOWNLOAD_BYTES"
    and "sum_list (body res) \<le> MAX_BYTES" and "\<not> write_fails a"
  shows "attempt a st =
    (st\<lparr>files := (files st)(saved st + 1 \<mapsto> sum_list (body res)), saved := saved st + 1\<rparr>,
     Stored)"
proof -
  have "sum_list (body res) \<le> MAX_DOWNLOAD_BYTES"
    using assms(4) by (simp add: MAX_BYTES_def MAX_DOWNLOAD_BYTES_def)
  from downloadWithLimit_fits[OF assms(2,3) this, of "node a" "write_fails a"] assms(1,5)
  have "downloadWithLimit (node a) (conn a) (write_fails a) MAX_DOWNLOAD_BYTES =
      \<lparr>outcome = Resolved (Ok (sum_list (body res))), dest_write = Some (sum_list (body res)),
       buffered = body res, stream = ReadToEnd\<rparr>"
    by simp
  then show ?thesis
    using assms(4) by (simp add: attempt_def Let_def)
qed

lemma try_candidates_idle:
  "\<forall>j u. attempt (env j u) st = (st, Next) \<Longrightarrow> try_candidates env st us = (st, False)"
  by (induction us) auto

lemma download_loop_idle:
  "\<forall>i' j u. i \<le> i' \<longrightarrow> attempt (env i' j u) st = (st, Next) \<Longrightarrow>
   download_loop env i st cs = st"
proof (induction cs arbitrary: i)
  case Nil
  then show ?case by simp
next
  case (Cons c cs)
  have "try_candidates (env i) st (url_ladder c) = (st, False)"
    using Cons.prems by (intro try_candidates_idle) simp
  moreover have "download_loop env (i + 1) st cs = st"
    using Cons.prems by (intro Cons.IH) simp
  ultimately show ?case by simp
qed

lemma url_ladder_four:
  "\<exists>u1 u2 u3. url_ladder c = [(0, url c), (1, u1), (2, u2), (3, u3)]"
  by (simp add: url_ladder_def SIZE_CANDIDATES_def)

lemma pad_single: "\<exists>rest. pad [c] = c # rest"
  by (simp add: pad_eq)

lemma collect_single:
  assumes "candidate_of it = Some cand"
  shows "images (collect (\<lambda>idx n market. Json (Object (Some [it])))) = [cand]"
proof -
  let ?f = "\<lambda>(idx::nat) (n::nat) (market::string). Json (Object (Some [it]))"
  let ?init = "\<lparr>images = [], seen = {}, requests = []\<rparr>"
  let ?c1 = "\<lparr>images = [cand], seen = {dedupeKey cand}, requests = [(0, ''zh-CN'')]\<rparr>"
  obtain rest where dm: "day_major = (0, ''zh-CN'') # (0, ''en-US'') # rest"
    using day_major_start by blast
  have v: "visit ?f ?init (0, ''zh-CN'') = ?c1"
    using assms
    by (simp add: visit_def extractImages_def Let_def TARGET_COUNT_def add_candidate_def)
  have "collect ?f = collect_in_order ?f ?init day_major"
    by (rule collect_in_order_day_major)
  also have "\<dots> = collect_in_order ?f ?c1 ((0, ''en-US'') # rest)"
    unfolding dm using v by (simp add: TARGET_COUNT_def)
  also have "\<dots> = ?c1\<lparr>requests := requests ?c1 @ (0, ''en-US'') # rest\<rparr>"
    using assms
    by (intro collect_in_order_nothing_new) (auto simp: extractImages_def TARGET_COUNT_def)
  finally show ?thesis by simp
qed


lemma attempt_not_found: "attempt not_found st = (st, Next)"
  by (rule attempt_bad_status
        [where res = "\<lparr>statusCode = 404, content_length = Missing, body = []\<rparr>"])
     (simp_all add: not_found_def)

lemma one_image_collected:
  "images (collect one_image) =
     [\<lparr>url = ''https://www.bing.com/th?id=OHR.A_1920x1080.jpg'', urlBase = Some ''/th?id=OHR.A''\<rparr>]"
  unfolding one_image_def by (rule collect_single) (simp add: candidate_of_def)

text \<open>
  With one image collected and only its first URL answering, the run ends in the state
  that the first pass through the body of the URL loop leaves.
\<close>

lemma run_first_only:
  assumes "attempt a \<lparr>files = Map.empty, saved = 0, stalled = False\<rparr> = (st1, s)"
  shows "main one_image (first_only a) =
    \<lparr>exit_status = 0, collected = pad (images (collect one_image)), final = st1\<rparr>"
proof -
  let ?start = "\<lparr>files = Map.empty, saved = 0, stalled = False\<rparr>"
  let ?env = "first_only a"
  let ?cand = "\<lparr>url = ''https://www.bing.com/th?id=OHR.A_1920x1080.jpg'',
      urlBase = Some ''/th?id=OHR.A''\<rparr>"
  obtain rest where p: "pad (images (collect one_image)) = ?cand # rest"
    using pad_single[of ?cand] by (auto simp: one_image_collected)
  obtain u1 u2 u3 where l: "url_ladder ?cand = [(0, url ?cand), (1, u1), (2, u2), (3, u3)]"
    using url_ladder_four[of ?cand] by blast
  have later: "try_candidates (?env 0) st1 [(1, u1), (2, u2), (3, u3)] = (st1, False)"
    by (simp add: first_only_def attempt_not_found)
  have "fst (try_candidates (?env 0) ?start (url_ladder ?cand)) = st1"
    unfolding l using assms later by (cases s) (simp_all add: first_only_def)
  moreover have "download_loop ?env 1 st1 rest = st1"
    by (rule download_loop_idle) (simp add: first_only_def attempt_not_found)
  ultimately have "download_loop ?env 0 ?start (?cand # rest) = st1"
    by (simp add: TARGET_COUNT_def)
  then show ?thesis
    using p by (simp add: main_def Let_def one_image_collected)
qed

lemma attempt_broken_jpeg:
  "attempt broken_jpeg \<lparr>files = Map.empty, saved = 0, stalled = False\<rparr> =
     (\<lparr>files = [1 \<mapsto> 600000], saved = 0, stalled = False\<rparr>, Next)"
proof -
  have wc: "width_candidates 1920 = [1920, 1000, 900, 800, 700, 640, 560, 480, 400]"
    by (simp add: width_candidates_def first_occurrences_def enumerate_eq_zip)
  have "compressToLimit (content broken_jpeg) MAX_BYTES = Threw"
    by (simp add: compressToLimit_def broken_jpeg_def width_or_zero_def wc qualities_def)
  with attempt_oversized[of broken_jpeg
      "\<lparr>statusCode = 200, content_length = Missing, body = [600000]\<rparr>"
      "\<lparr>files = Map.empty, saved = 0, stalled = False\<rparr>"]
  show ?thesis
    by (simp add: broken_jpeg_def header_exceeds_def MAX_BYTES_def MAX_DOWNLOAD_BYTES_def)
qed

lemma attempt_small_jpeg:
  "attempt small_jpeg \<lparr>files = Map.empty, saved = 0, stalled = False\<rparr> =
     (\<lparr>files = [1 \<mapsto> 1000], saved = 1, stalled = False\<rparr>, Stored)"
  using attempt_small[of small_jpeg
      "\<lparr>statusCode = 200, content_length = Num 1000, body = [1000]\<rparr>"
      "\<lparr>files = Map.empty, saved = 0, stalled = False\<rparr>"]
  by (simp add: small_jpeg_def header_exceeds_def MAX_BYTES_def MAX_DOWNLOAD_BYTES_def)

subsection \<open>The files at the end of a run\<close>

lemma main_numbered: "numbered (final (main f env))"
proof -
  have start: "numbered \<lparr>files = Map.empty, saved = 0, stalled = False\<rparr>"
    by (simp add: numbered_def)
  show ?thesis
    using start download_loop_numbered[OF start] by (simp add: main_def Let_def)
qed

text \<open>
  What holds of the numbering in every run: the files at the end are \<^verbatim>\<open>1.jpg\<close> to \<^verbatim>\<open>k.jpg\<close>
  for some \<open>k\<close> from 0 to \<^verbatim>\<open>TARGET_COUNT\<close>, with no gap, where \<open>k\<close> is \<^verbatim>\<open>saved\<close> or
  \<^verbatim>\<open>saved + 1\<close>; and \<open>k\<close> is \<^verbatim>\<open>saved\<close> when no re-encoding throws.
\<close>

lemma output_files_numbered:
  "(\<exists>k\<le>TARGET_COUNT. dom (files (final (main f env))) = {1..k} \<and>
      (k = saved (final (main f env)) \<or> k = saved (final (main f env)) + 1)) \<and>
   ((\<forall>i j u. compressToLimit (content (env i j u)) MAX_BYTES \<noteq> Threw) \<longrightarrow>
      dom (files (final (main f env))) = {1..saved (final (main f env))})"
proof -
  let ?st = "final (main f env)"
  have "numbered ?st" by (rule main_numbered)
  then have "saved ?st \<le> TARGET_COUNT"
    "dom (files ?st) = {1..saved ?st} \<or>
     (saved ?st < TARGET_COUNT \<and> dom (files ?st) = {1..saved ?st + 1})"
    by (simp_all add: numbered_def)
  then have first: "\<exists>k\<le>TARGET_COUNT. dom (files ?st) = {1..k} \<and>
      (k = saved ?st \<or> k = saved ?st + 1)"
    by (metis Suc_eq_plus1 Suc_leI)
  have second: "dom (files ?st) = {1..saved ?st}"
    if h: "\<forall>i j u. compressToLimit (content (env i j u)) MAX_BYTES \<noteq> Threw"
  proof -
    have start: "within_budget \<lparr>files = Map.empty, saved = 0, stalled = False\<rparr>"
      by (simp add: within_budget_def)
    have "within_budget ?st"
      using start download_loop_within_budget[OF start h] by (simp add: main_def Let_def)
    then show ?thesis by (simp add: within_budget_def)
  qed
  from first second show ?thesis by blast
qed

text \<open>
  Claim C1 at a concrete run. One image is collected; its first URL answers with 600000
  bytes, above \<^verbatim>\<open>MAX_BYTES\<close>, whose metadata can be read but whose encoding throws; every
  other download is a 404. The exception is caught by the \<^verbatim>\<open>catch\<close> of the URL loop, which
  only logs it: at the end of the run \<^verbatim>\<open>1.jpg\<close> is still in the output directory with its
  600000 bytes, it was neither rewritten nor unlinked, and no image counts as saved.
\<close>

theorem oversized_file_left_behind:
  "files (final (main one_image (first_only broken_jpeg))) 1 = Some 600000 \<and>
   600000 > MAX_BYTES \<and>
   saved (final (main one_image (first_only broken_jpeg))) = 0 \<and>
   exit_status (main one_image (first_only broken_jpeg)) = 0"
  by (simp add: run_first_only[OF attempt_broken_jpeg] MAX_BYTES_def)

text \<open>
  Claim C3 at the same run. The claim has the files of every run be \<^verbatim>\<open>1.jpg\<close> to
  \<^verbatim>\<open>saved.jpg\<close>, the counter \<^verbatim>\<open>saved\<close> growing only when a candidate is stored. Here the
  download that the re-encoding threw on was written under the next name and never
  unlinked: the output directory holds \<^verbatim>\<open>1.jpg\<close> while \<^verbatim>\<open>saved\<close> is 0, so the files are not
  \<^verbatim>\<open>1.jpg\<close> to \<^verbatim>\<open>saved.jpg\<close>, which is no file at all.
\<close>

theorem stale_file_beyond_saved:
  "dom (files (final (main one_image (first_only broken_jpeg)))) = {1} \<and>
   saved (final (main one_image (first_only broken_jpeg))) = 0 \<and>
   dom (files (final (main one_image (first_only broken_jpeg)))) \<noteq>
     {1..saved (final (main one_image (first_only broken_jpeg)))}"
  by (simp add: run_first_only[OF attempt_broken_jpeg])

text \<open>
  What the run does keep: when no re-encoding throws, the files at the end of the run are
  exactly \<^verbatim>\<open>1.jpg\<close> to \<^verbatim>\<open>saved.jpg\<close> and each is within \<^verbatim>\<open>MAX_BYTES\<close>.
\<close>

lemma files_within_budget_unless_thrown:
  assumes "\<forall>i j u. compressToLimit (content (env i j u)) MAX_BYTES \<noteq> Threw"
  shows "within_budget (final (main f env))"
proof -
  have start: "within_budget \<lparr>files = Map.empty, saved = 0, stalled = False\<rparr>"
    by (simp add: within_budget_def)
  show ?thesis
    using start download_loop_within_budget[OF start assms] by (simp add: main_def Let_def)
qed

subsection \<open>A download that overflows while streaming\<close>

lemma attempt_oversized_stream:
  "attempt oversized_stream \<lparr>files = Map.empty, saved = 0, stalled = False\<rparr> =
     (\<lparr>files = Map.empty, saved = 0, stalled = True\<rparr>, Stall)"
  by (simp add: attempt_def oversized_stream_def downloadWithLimit_def on_data_def Let_def
      initial_download_state_def header_exceeds_def MAX_DOWNLOAD_BYTES_def)

text \<open>
  Claim C2 at a concrete download. The response is a 200 without \<^verbatim>\<open>content-length\<close> whose
  body exceeds \<^verbatim>\<open>MAX_DOWNLOAD_BYTES\<close> at its second chunk. The \<^verbatim>\<open>'data'\<close> handler sets
  \<^verbatim>\<open>aborted\<close> and calls \<^verbatim>\<open>res.destroy()\<close> there, before the end of the stream, and nothing is
  written: so far the claim holds. But the promise is resolved with \<^verbatim>\<open>too-large\<close> only in
  the \<^verbatim>\<open>'end'\<close> handler (lines 71 to 75), and a runtime that emits no \<^verbatim>\<open>'end'\<close> for a destroyed
  response never runs it: the promise stays pending, \<^verbatim>\<open>downloadWithLimit\<close> returns no
  outcome, and the run that awaits it takes no further step.
\<close>

theorem overflow_promise_never_settles:
  "sum_list [6000000, 6000000, 6000000] > MAX_DOWNLOAD_BYTES \<and>
   downloadWithLimit \<lparr>end_after_destroy = False\<rparr>
     (Response \<lparr>statusCode = 200, content_length = Missing,
                body = [6000000, 6000000, 6000000]\<rparr>) False MAX_DOWNLOAD_BYTES =
   \<lparr>outcome = Pending, dest_write = None, buffered = [6000000], stream = Destroyed\<rparr> \<and>
   Pending \<noteq> Resolved TooLarge \<and>
   final (main one_image (first_only oversized_stream)) =
     \<lparr>files = Map.empty, saved = 0, stalled = True\<rparr>"
proof -
  have "downloadWithLimit \<lparr>end_after_destroy = False\<rparr>
     (Response \<lparr>statusCode = 200, content_length = Missing,
                body = [6000000, 6000000, 6000000]\<rparr>) False MAX_DOWNLOAD_BYTES =
   \<lparr>outcome = Pending, dest_write = None, buffered = [6000000], stream = Destroyed\<rparr>"
    by (simp add: downloadWithLimit_def on_data_def Let_def initial_download_state_def
        header_exceeds_def MAX_DOWNLOAD_BYTES_def)
  moreover have "final (main one_image (first_only oversized_stream)) =
     \<lparr>files = Map.empty, saved = 0, stalled = True\<rparr>"
    by (simp add: run_first_only[OF attempt_oversized_stream])
  ultimately show ?thesis
    by (simp add: MAX_DOWNLOAD_BYTES_def)
qed

subsection \<open>The exit status\<close>



end
